theory Spec2Isabelle
  imports Complex_Main "HOL-Library.Word" "HOL-Library.Multiset"
begin

section \<open>Strings of the JavaScript runtime\<close>

text \<open>
  A JavaScript string is a sequence of 16-bit code units; \<open>length\<close> is the
  \<^verbatim>\<open>.length\<close> of the source. ASCII literals are written through \<open>js\<close>,
  other code units (Hangul, full-width punctuation) by their number.
\<close>

type_synonym jschar = "16 word"
type_synonym jsstring = "jschar list"

definition js :: "string \<Rightarrow> jsstring" where
  "js s = map of_char s"

definition nl :: jschar where
  "nl = 0x0A"

definition in_range :: "jschar \<Rightarrow> jschar \<Rightarrow> jschar \<Rightarrow> bool" where
  "in_range lo hi c = (lo \<le> c \<and> c \<le> hi)"

text \<open>
  The code units that \<^verbatim>\<open>\s\<close> matches and \<^verbatim>\<open>trim()\<close> strips: the
  WhiteSpace and LineTerminator productions of ECMAScript.
\<close>

definition is_ws :: "jschar \<Rightarrow> bool" where
  "is_ws c = (in_range 0x09 0x0D c \<or> c = 0x20 \<or> c = 0xA0 \<or> c = 0x1680
     \<or> in_range 0x2000 0x200A c \<or> c = 0x2028 \<or> c = 0x2029 \<or> c = 0x202F
     \<or> c = 0x205F \<or> c = 0x3000 \<or> c = 0xFEFF)"

text \<open>\<^verbatim>\<open>.\<close> matches every code unit but a line terminator.\<close>

definition is_dot :: "jschar \<Rightarrow> bool" where
  "is_dot c = (c \<noteq> 0x0A \<and> c \<noteq> 0x0D \<and> c \<noteq> 0x2028 \<and> c \<noteq> 0x2029)"

definition is_digit :: "jschar \<Rightarrow> bool" where
  "is_digit c = in_range 0x30 0x39 c"

definition is_upper :: "jschar \<Rightarrow> bool" where
  "is_upper c = in_range 0x41 0x5A c"

definition is_lower :: "jschar \<Rightarrow> bool" where
  "is_lower c = in_range 0x61 0x7A c"

text \<open>The class \<^verbatim>\<open>[U+AC00-U+D7A3]\<close> of Hangul syllables.\<close>

definition is_hangul :: "jschar \<Rightarrow> bool" where
  "is_hangul c = in_range 0xAC00 0xD7A3 c"

definition trim :: "jsstring \<Rightarrow> jsstring" where
  "trim s = rev (dropWhile is_ws (rev (dropWhile is_ws s)))"

text \<open>\<^verbatim>\<open>s.split(sep)\<close> for a separator of one code unit; the empty string gives one empty line.\<close>

fun js_split :: "jschar \<Rightarrow> jsstring \<Rightarrow> jsstring list" where
  "js_split sep [] = [Nil]"
| "js_split sep (c # cs) =
     (if c = sep then [] # js_split sep cs
      else (case js_split sep cs of
              [] \<Rightarrow> [c # Nil]
            | l # ls \<Rightarrow> (c # l) # ls))"

text \<open>\<^verbatim>\<open>xs.join(sep)\<close> for a separator of one code unit.\<close>

fun js_join :: "jschar \<Rightarrow> jsstring list \<Rightarrow> jsstring" where
  "js_join sep [] = []"
| "js_join sep [l] = l"
| "js_join sep (l # m # ls) = l @ sep # js_join sep (m # ls)"

text \<open>\<^verbatim>\<open>xs.slice(a, b)\<close> and \<^verbatim>\<open>xs.slice(a)\<close> for indices within \<open>0..length\<close>.\<close>

definition slice :: "nat \<Rightarrow> nat \<Rightarrow> 'a list \<Rightarrow> 'a list" where
  "slice a b xs = take (b - a) (drop a xs)"

text \<open>\<^verbatim>\<open>String(n)\<close> for a non-negative integer: its decimal digits.\<close>

fun decimal :: "nat \<Rightarrow> jsstring" where
  "decimal n = (if n < 10 then [0x30 + of_nat n]
                else decimal (n div 10) @ [0x30 + of_nat (n mod 10)])"

declare decimal.simps [simp del]

section \<open>Regular expressions\<close>

text \<open>
  The patterns of the source are kept as syntax trees and run by a backtracking matcher
  with the priorities of ECMAScript: the left alternative first, a greedy quantifier
  first with as many iterations as it can take. \<open>Sym P\<close> is any atom that consumes one
  code unit (a literal, a class, an escape, the dot); \<open>Rep lo hi r\<close> is \<open>r{lo,hi}\<close>
  with \<open>None\<close> for no upper bound; \<open>Grp n r\<close> is the n-th capturing group.
  No pattern of the source has the \<^verbatim>\<open>m\<close>, \<^verbatim>\<open>s\<close>, \<^verbatim>\<open>u\<close> or \<^verbatim>\<open>y\<close> flag; under \<^verbatim>\<open>i\<close>
  a pattern letter is written with \<open>ci\<close>.
\<close>

datatype rx =
    Sym "jschar \<Rightarrow> bool"
  | Eps
  | Seq rx rx
  | Alt rx rx
  | Rep nat "nat option" rx
  | Grp nat rx
  | Bol
  | Eol

text \<open>
  A matcher state: the index reached in the subject, the rest of the subject from
  there, and the captures so far.
\<close>

type_synonym captures = "nat \<rightharpoonup> jsstring"
type_synonym mstate = "nat \<times> jsstring \<times> captures"

text \<open>
  The quantifier: one more iteration first, then stopping. Once the lower bound is met an
  iteration that consumes nothing is rejected, as RepeatMatcher does. The first
  argument bounds the number of iterations; \<open>run\<close> starts it at
  \<open>Suc (lo + length rest)\<close>, which no sequence of iterations can use up.
\<close>

primrec rep :: "(mstate \<Rightarrow> mstate list) \<Rightarrow> nat \<Rightarrow> nat \<Rightarrow> nat option \<Rightarrow> mstate \<Rightarrow> mstate list" where
  "rep f 0 lo hi st = []"
| "rep f (Suc n) lo hi st =
     (if hi = Some 0 then [st]
      else concat (map (rep f n (lo - 1) (map_option (\<lambda>h. h - 1) hi))
                    (filter (\<lambda>st'. 0 < lo \<or> fst st < fst st') (f st)))
           @ (if lo = 0 then [st] else []))"

primrec run :: "rx \<Rightarrow> mstate \<Rightarrow> mstate list" where
  "run (Sym P) st =
     (case st of (k, rest, caps) \<Rightarrow>
        (case rest of [] \<Rightarrow> [] | c # cs \<Rightarrow> if P c then [(Suc k, cs, caps)] else []))"
| "run Eps st = [st]"
| "run (Seq a b) st = concat (map (run b) (run a st))"
| "run (Alt a b) st = run a st @ run b st"
| "run (Rep lo hi r) st = rep (run r) (Suc (lo + length (fst (snd st)))) lo hi st"
| "run (Grp n r) st =
     (case st of (k, rest, caps) \<Rightarrow>
        map (\<lambda>(k', rest', caps'). (k', rest', caps'(n \<mapsto> take (k' - k) rest)))
            (run r st))"
| "run Bol st = (if fst st = 0 then [st] else [])"
| "run Eol st = (if fst (snd st) = [] then [st] else [])"

text \<open>
  What every matcher does to a state: it moves the index forward by the number of code
  units it takes off the rest. It is the reason why the bound on the iterations of a
  quantifier is never reached (\<open>run_Rep_any_fuel\<close> below).
\<close>

definition conserves :: "(mstate \<Rightarrow> mstate list) \<Rightarrow> bool" where
  "conserves f =
     (\<forall>k s c k' s' c'. (k', s', c') \<in> set (f (k, s, c)) \<longrightarrow>
        k' + length s' = k + length s \<and> length s' \<le> length s)"

text \<open>
  The match of a pattern at the current index, if any: the number of code units it
  consumes and its captures.
\<close>

definition match_here :: "rx \<Rightarrow> nat \<Rightarrow> jsstring \<Rightarrow> (nat \<times> captures) option" where
  "match_here r k s =
     (case run r (k, s, Map.empty) of
        [] \<Rightarrow> None
      | (k', rest', caps) # _ \<Rightarrow> Some (k' - k, caps))"

text \<open>
  \<^verbatim>\<open>re.exec(s)\<close> without the \<^verbatim>\<open>g\<close> flag: the leftmost index at which the pattern
  matches, with the matched text and the captures.
\<close>

fun exec_from :: "rx \<Rightarrow> nat \<Rightarrow> jsstring \<Rightarrow> (jsstring \<times> captures) option" where
  "exec_from r k [] =
     (case match_here r k [] of None \<Rightarrow> None | Some (m, caps) \<Rightarrow> Some ([], caps))"
| "exec_from r k (c # cs) =
     (case match_here r k (c # cs) of
        None \<Rightarrow> exec_from r (Suc k) cs
      | Some (m, caps) \<Rightarrow> Some (take m (c # cs), caps))"

definition rx_exec :: "rx \<Rightarrow> jsstring \<Rightarrow> (jsstring \<times> captures) option" where
  "rx_exec r s = exec_from r 0 s"

definition rx_test :: "rx \<Rightarrow> jsstring \<Rightarrow> bool" where
  "rx_test r s = (rx_exec r s \<noteq> None)"

text \<open>
  A replacement string: literal text and \<^verbatim>\<open>$n\<close> references; a group that did not
  take part in the match is the empty string.
\<close>

datatype repl = Txt jsstring | Ref nat

fun expand :: "repl list \<Rightarrow> captures \<Rightarrow> jsstring" where
  "expand [] caps = []"
| "expand (Txt t # ts) caps = t @ expand ts caps"
| "expand (Ref n # ts) caps = (case caps n of None \<Rightarrow> [] | Some g \<Rightarrow> g) @ expand ts caps"

text \<open>
  \<^verbatim>\<open>s.replace(re, repl)\<close> with the \<^verbatim>\<open>g\<close> flag: every match from the left, the
  search resuming behind the match, or one code unit further after an empty match.
\<close>

function replace_from :: "rx \<Rightarrow> repl list \<Rightarrow> nat \<Rightarrow> jsstring \<Rightarrow> jsstring" where
  "replace_from r t k [] =
     (case match_here r k [] of None \<Rightarrow> [] | Some (m, caps) \<Rightarrow> expand t caps)"
| "replace_from r t k (c # cs) =
     (case match_here r k (c # cs) of
        None \<Rightarrow> c # replace_from r t (Suc k) cs
      | Some (m, caps) \<Rightarrow>
          (if m = 0 then expand t caps @ c # replace_from r t (Suc k) cs
           else expand t caps @ replace_from r t (k + m) (drop m (c # cs))))"
  by pat_completeness auto
termination
  by (relation "measure (\<lambda>(r, t, k, s). length s)") auto

definition replace_all :: "rx \<Rightarrow> repl list \<Rightarrow> jsstring \<Rightarrow> jsstring" where
  "replace_all r t s = replace_from r t 0 s"

text \<open>\<^verbatim>\<open>s.replace(re, repl)\<close> without the \<^verbatim>\<open>g\<close> flag: the leftmost match only.\<close>

fun replace_first_from :: "rx \<Rightarrow> repl list \<Rightarrow> nat \<Rightarrow> jsstring \<Rightarrow> jsstring" where
  "replace_first_from r t k [] =
     (case match_here r k [] of None \<Rightarrow> [] | Some (m, caps) \<Rightarrow> expand t caps)"
| "replace_first_from r t k (c # cs) =
     (case match_here r k (c # cs) of
        None \<Rightarrow> c # replace_first_from r t (Suc k) cs
      | Some (m, caps) \<Rightarrow> expand t caps @ drop m (c # cs))"

definition replace_first :: "rx \<Rightarrow> repl list \<Rightarrow> jsstring \<Rightarrow> jsstring" where
  "replace_first r t s = replace_first_from r t 0 s"

text \<open>\<^verbatim>\<open>s.match(re)\<close> with the \<^verbatim>\<open>g\<close> flag: the matched texts, \<open>[]\<close> standing for \<^verbatim>\<open>null\<close>.\<close>

function matches_from :: "rx \<Rightarrow> nat \<Rightarrow> jsstring \<Rightarrow> jsstring list" where
  "matches_from r k [] =
     (case match_here r k [] of None \<Rightarrow> [] | Some (m, caps) \<Rightarrow> [Nil])"
| "matches_from r k (c # cs) =
     (case match_here r k (c # cs) of
        None \<Rightarrow> matches_from r (Suc k) cs
      | Some (m, caps) \<Rightarrow>
          (if m = 0 then [] # matches_from r (Suc k) cs
           else take m (c # cs) # matches_from r (k + m) (drop m (c # cs))))"
  by pat_completeness auto
termination
  by (relation "measure (\<lambda>(r, k, s). length s)") auto

definition match_all :: "rx \<Rightarrow> jsstring \<Rightarrow> jsstring list" where
  "match_all r s = matches_from r 0 s"

subsection \<open>Writing patterns\<close>

definition ch :: "char \<Rightarrow> rx" where
  "ch c = Sym (\<lambda>x. x = of_char c)"

definition cu :: "jschar \<Rightarrow> rx" where
  "cu c = Sym (\<lambda>x. x = c)"

text \<open>
  A letter of a pattern with the \<^verbatim>\<open>i\<close> flag. Without the \<^verbatim>\<open>u\<close> flag two code units
  match when their canonical (upper-case) forms agree, and a code unit beyond ASCII is
  never canonicalised into ASCII: an ASCII letter matches its two ASCII cases only.
\<close>

definition ascii_upper :: "jschar \<Rightarrow> jschar" where
  "ascii_upper c = (if is_lower c then c - 0x20 else c)"

definition ascii_lower :: "jschar \<Rightarrow> jschar" where
  "ascii_lower c = (if is_upper c then c + 0x20 else c)"

definition ci :: "char \<Rightarrow> rx" where
  "ci c = Sym (\<lambda>x. ascii_upper x = ascii_upper (of_char c))"

fun seqs :: "rx list \<Rightarrow> rx" where
  "seqs [] = Eps"
| "seqs [r] = r"
| "seqs (r # rs) = Seq r (seqs rs)"

fun alts :: "rx list \<Rightarrow> rx" where
  "alts [] = Sym (\<lambda>x. False)"
| "alts [r] = r"
| "alts (r # rs) = Alt r (alts rs)"

definition lit :: "string \<Rightarrow> rx" where
  "lit s = seqs (map ch s)"

definition lit_i :: "string \<Rightarrow> rx" where
  "lit_i s = seqs (map ci s)"

definition lit_u :: "jsstring \<Rightarrow> rx" where
  "lit_u s = seqs (map cu s)"

definition star :: "rx \<Rightarrow> rx" where
  "star r = Rep 0 None r"

definition plus :: "rx \<Rightarrow> rx" where
  "plus r = Rep 1 None r"

definition opt :: "rx \<Rightarrow> rx" where
  "opt r = Rep 0 (Some 1) r"

definition ws :: rx where
  "ws = Sym is_ws"

definition digit :: rx where
  "digit = Sym is_digit"

definition dot :: rx where
  "dot = Sym is_dot"

section \<open>Chunker\<close>

text \<open>
  \<^verbatim>\<open>export const CHUNK_SIZE = 8000;  export const CHUNK_OVERLAP = 500;\<close>
\<close>

definition CHUNK_SIZE :: nat where
  "CHUNK_SIZE = 8000"

definition CHUNK_OVERLAP :: nat where
  "CHUNK_OVERLAP = 500"

text \<open>\<^verbatim>\<open>return content.length > CHUNK_SIZE;\<close>\<close>

definition needsChunking :: "jsstring \<Rightarrow> bool" where
  "needsChunking content' = (length content' > CHUNK_SIZE)"

text \<open>
  \<^verbatim>\<open>Math.floor(currentChunk.length * 0.7)\<close> is a product of doubles. The double
  nearest to 0.7 is \<open>double_07 / 2^53\<close>; the exact product is rounded to 53
  significant bits, ties to even, and then floored. The rounding is visible: at 90 lines
  the result is 62, not 63.
\<close>

definition double_07 :: nat where
  "double_07 = 6305039478318694"

fun bitlen :: "nat \<Rightarrow> nat" where
  "bitlen n = (if n = 0 then 0 else Suc (bitlen (n div 2)))"

declare bitlen.simps [simp del]

definition round53 :: "nat \<Rightarrow> nat" where
  "round53 m =
     (let b = bitlen m in
      if b \<le> 53 then m
      else (let sh = b - 53; q = m div 2 ^ sh; r = m mod 2 ^ sh; half = 2 ^ (sh - 1);
                q' = (if r > half \<or> (r = half \<and> odd q) then q + 1 else q)
            in q' * 2 ^ sh))"

definition floor_times_07 :: "nat \<Rightarrow> nat" where
  "floor_times_07 n = round53 (n * double_07) div 2 ^ 53"

text \<open>The interface \<^verbatim>\<open>ContentChunk\<close>.\<close>

record ContentChunk =
  index :: nat
  content :: jsstring
  startLine :: int
  endLine :: int
  isFirst :: bool
  isLast :: bool

text \<open>The variables of the loop of \<^verbatim>\<open>splitIntoChunks\<close>.\<close>

record chunker =
  chunks :: "ContentChunk list"
  currentChunk :: "jsstring list"
  currentLength :: nat
  chunkStartLine :: int
  chunkIndex :: nat

text \<open>\<^verbatim>\<open>/^#{1,6}\s/\<close>\<close>

definition md_heading_start :: rx where
  "md_heading_start = seqs [Bol, Rep 1 (Some 6) (ch CHR ''#''), ws]"

text \<open>\<^verbatim>\<open>currentChunk[j].trim() === '' || /^#{1,6}\s/.test(currentChunk[j])\<close>\<close>

definition split_point :: "jsstring \<Rightarrow> bool" where
  "split_point l = (trim l = [] \<or> rx_test md_heading_start l)"

text \<open>
  The inner loop \<^verbatim>\<open>for (j = currentChunk.length - 1; j >= lo; j--)\<close>, which sets
  \<^verbatim>\<open>splitIndex = j + 1\<close> at the first split point and leaves the default otherwise.
  The last argument is \<open>j + 1\<close>.
\<close>

fun scan_split :: "jsstring list \<Rightarrow> nat \<Rightarrow> nat \<Rightarrow> nat \<Rightarrow> nat" where
  "scan_split cur lo dflt 0 = dflt"
| "scan_split cur lo dflt (Suc j) =
     (if j < lo then dflt
      else if split_point (cur ! j) then Suc j
      else scan_split cur lo dflt j)"

text \<open>\<^verbatim>\<open>Math.ceil(CHUNK_OVERLAP / 80)\<close>\<close>

definition overlapLines :: nat where
  "overlapLines = nat \<lceil>(of_nat CHUNK_OVERLAP :: rat) / 80\<rceil>"

text \<open>One iteration of the outer loop, at line \<open>i\<close>.\<close>

definition chunk_step :: "nat \<times> jsstring \<Rightarrow> chunker \<Rightarrow> chunker" where
  "chunk_step p st =
     (case p of (i, line) \<Rightarrow>
        (let lineLength = length line + 1 in
         if currentLength st + lineLength > CHUNK_SIZE \<and> length (currentChunk st) > 0 then
           (let cur = currentChunk st;
                splitIndex = scan_split cur (floor_times_07 (length cur)) (length cur) (length cur);
                chunkContent = js_join nl (slice 0 splitIndex cur);
                keepLines = drop (nat (max (int splitIndex - int overlapLines) 0)) cur
            in st\<lparr>chunks := chunks st @
                      [\<lparr>index = chunkIndex st, content = chunkContent,
                        startLine = chunkStartLine st,
                        endLine = chunkStartLine st + int splitIndex - 1,
                        isFirst = (length (chunks st) = 0), isLast = False\<rparr>],
                    chunkIndex := chunkIndex st + 1,
                    currentChunk := keepLines @ [line],
                    currentLength := length (js_join nl keepLines) + lineLength,
                    chunkStartLine := int i - int (length keepLines) + 1\<rparr>)
         else st\<lparr>currentChunk := currentChunk st @ [line],
                 currentLength := currentLength st + lineLength\<rparr>))"

definition chunker_init :: chunker where
  "chunker_init = \<lparr>chunks = [], currentChunk = [], currentLength = 0, chunkStartLine = 0, chunkIndex = 0\<rparr>"

text \<open>\<^verbatim>\<open>if (chunks.length > 0) chunks[chunks.length - 1].isLast = true;\<close>\<close>

definition mark_last :: "ContentChunk list \<Rightarrow> ContentChunk list" where
  "mark_last cs = (if length cs > 0 then cs[length cs - 1 := (cs ! (length cs - 1))\<lparr>isLast := True\<rparr>] else cs)"

definition splitIntoChunks :: "jsstring \<Rightarrow> ContentChunk list" where
  "splitIntoChunks content' =
     (let lines = js_split nl content';
          st = fold chunk_step (enumerate 0 lines) chunker_init;
          cs = (if length (currentChunk st) > 0
                then chunks st @
                       [\<lparr>index = chunkIndex st, content = js_join nl (currentChunk st),
                         startLine = chunkStartLine st, endLine = int (length lines) - 1,
                         isFirst = (length (chunks st) = 0), isLast = True\<rparr>]
                else chunks st)
      in mark_last cs)"

text \<open>
  For stating what the chunks hold: a chunk \<open>c\<close> holds the lines \<open>a..<b\<close> of the
  document \<open>L\<close> (at least one), and consecutive chunks are linked when the later one
  starts inside or right behind the earlier one, at most \<open>overlapLines\<close> lines
  before its end.
\<close>

definition span_ok :: "jsstring list \<Rightarrow> ContentChunk \<Rightarrow> nat \<times> nat \<Rightarrow> bool" where
  "span_ok L c p =
     (fst p < snd p \<and> snd p \<le> length L \<and>
      content c = js_join nl (slice (fst p) (snd p) L) \<and>
      js_split nl (content c) = slice (fst p) (snd p) L)"

definition overlap_link :: "nat \<times> nat \<Rightarrow> nat \<times> nat \<Rightarrow> bool" where
  "overlap_link p q = (fst p \<le> fst q \<and> fst q \<le> snd p \<and> snd p \<le> fst q + overlapLines)"

text \<open>
  The loop invariant before line \<open>i\<close>: the buffer holds the lines \<open>a..<i\<close>, and the
  chunks emitted so far hold the linked spans.
\<close>

definition chunk_inv :: "jsstring list \<Rightarrow> nat \<Rightarrow> chunker \<Rightarrow> (nat \<times> nat) list \<Rightarrow> nat \<Rightarrow> bool" where
  "chunk_inv L i st spans a =
     (a \<le> i \<and> i \<le> length L \<and> (0 < i \<longrightarrow> a < i) \<and>
      currentChunk st = slice a i L \<and>
      list_all2 (span_ok L) (chunks st) spans \<and>
      successively overlap_link spans \<and>
      (if spans = [] then a = 0
       else fst (hd spans) = 0 \<and> overlap_link (last spans) (a, i)))"

section \<open>Heading classifier\<close>

text \<open>The value returned by \<^verbatim>\<open>isChapterHeading\<close>.\<close>

record HeadingMatch =
  isHeading :: bool
  title :: jsstring
  level :: nat

text \<open>
  A capture of a match: \<^verbatim>\<open>match[n]\<close>. A group that took no part in the match is
  \<^verbatim>\<open>undefined\<close> (\<open>None\<close>); \<open>group\<close> reads a group that takes part in every match
  of its pattern.
\<close>

definition group :: "captures \<Rightarrow> nat \<Rightarrow> jsstring" where
  "group caps n = (case caps n of None \<Rightarrow> [] | Some g \<Rightarrow> g)"

text \<open>The common tail \<^verbatim>\<open>\s*[.:\uFF1A]?\s*(.+)?$\<close> of the chapter patterns.\<close>

definition title_tail :: "rx list" where
  "title_tail =
     [star ws, opt (Sym (\<lambda>c. c = 0x2E \<or> c = 0x3A \<or> c = 0xFF1A)), star ws,
      opt (Grp 2 (plus dot)), Eol]"

text \<open>
  \<^verbatim>\<open>CHAPTER_PATTERNS\<close>, in the order of the source. The Hangul syllables are
  U+C81C (je), U+C7A5 (jang), U+D3B8 (pyeon), U+BD80 (bu), U+C808 (jeol); U+FF0E is the
  full-width full stop and U+FF1A the full-width colon.
\<close>

definition CHAPTER_PATTERNS :: "rx list" where
  \<open>CHAPTER_PATTERNS =
     [\<comment> \<open>\<^verbatim>\<open>/^(je\s*\d+\s*jang)\s*[.:\uFF1A]?\s*(.+)?$/\<close>\<close>
      seqs (Bol # Grp 1 (seqs [cu 0xC81C, star ws, plus digit, star ws, cu 0xC7A5]) # title_tail),
      \<comment> \<open>\<^verbatim>\<open>/^(je\s*\d+\s*pyeon)\s*[.:\uFF1A]?\s*(.+)?$/\<close>\<close>
      seqs (Bol # Grp 1 (seqs [cu 0xC81C, star ws, plus digit, star ws, cu 0xD3B8]) # title_tail),
      \<comment> \<open>\<^verbatim>\<open>/^(je\s*\d+\s*bu)\s*[.:\uFF1A]?\s*(.+)?$/\<close>\<close>
      seqs (Bol # Grp 1 (seqs [cu 0xC81C, star ws, plus digit, star ws, cu 0xBD80]) # title_tail),
      \<comment> \<open>\<^verbatim>\<open>/^(je\s*\d+\s*jeol)\s*[.:\uFF1A]?\s*(.+)?$/\<close>\<close>
      seqs (Bol # Grp 1 (seqs [cu 0xC81C, star ws, plus digit, star ws, cu 0xC808]) # title_tail),
      \<comment> \<open>\<^verbatim>\<open>/^(\d+jang)\s*[.:\uFF1A]?\s*(.+)?$/\<close>\<close>
      seqs (Bol # Grp 1 (seqs [plus digit, cu 0xC7A5]) # title_tail),
      \<comment> \<open>the seven Korean prologue, epilogue and preface words, \<^verbatim>\<open>/^(...|...)/i\<close>\<close>
      seqs [Bol, Grp 1 (alts
        [lit_u [0xD504, 0xB864, 0xB85C, 0xADF8], lit_u [0xC5D0, 0xD544, 0xB85C, 0xADF8],
         lit_u [0xC11C, 0xBB38], lit_u [0xBA38, 0xB9AC, 0xB9D0], lit_u [0xB9FA, 0xC74C, 0xB9D0],
         lit_u [0xB4E4, 0xC5B4, 0xAC00, 0xBA70], lit_u [0xB098, 0xAC00, 0xBA70]])],
      \<comment> \<open>\<^verbatim>\<open>/^(Chapter\s+\d+)\s*[.:\uFF1A]?\s*(.+)?$/i\<close>\<close>
      seqs (Bol # Grp 1 (seqs [lit_i ''Chapter'', plus ws, plus digit]) # title_tail),
      \<comment> \<open>\<^verbatim>\<open>/^(Part\s+\d+)\s*[.:\uFF1A]?\s*(.+)?$/i\<close>\<close>
      seqs (Bol # Grp 1 (seqs [lit_i ''Part'', plus ws, plus digit]) # title_tail),
      \<comment> \<open>\<^verbatim>\<open>/^(Section\s+\d+)\s*[.:\uFF1A]?\s*(.+)?$/i\<close>\<close>
      seqs (Bol # Grp 1 (seqs [lit_i ''Section'', plus ws, plus digit]) # title_tail),
      \<comment> \<open>\<^verbatim>\<open>/^(Prologue|Epilogue|Introduction|Conclusion|Preface)/i\<close>\<close>
      seqs [Bol, Grp 1 (alts
        [lit_i ''Prologue'', lit_i ''Epilogue'', lit_i ''Introduction'', lit_i ''Conclusion'',
         lit_i ''Preface''])],
      \<comment> \<open>\<^verbatim>\<open>/^(\d+)\s*[.\uFF0E]\s+(.+)$/\<close>\<close>
      seqs [Bol, Grp 1 (plus digit), star ws, Sym (\<lambda>c. c = 0x2E \<or> c = 0xFF0E), plus ws,
            Grp 2 (plus dot), Eol],
      \<comment> \<open>\<^verbatim>\<open>/^([IVXLCDM]+)\s*[.\uFF0E]\s+(.+)$/i\<close>\<close>
      seqs [Bol, Grp 1 (plus (Sym (\<lambda>c. ascii_upper c \<in> set (js ''IVXLCDM'')))), star ws,
            Sym (\<lambda>c. c = 0x2E \<or> c = 0xFF0E), plus ws, Grp 2 (plus dot), Eol],
      \<comment> \<open>\<^verbatim>\<open>/^#{1,3}\s+(.+)$/\<close>\<close>
      seqs [Bol, Rep 1 (Some 3) (ch CHR ''#''), plus ws, Grp 1 (plus dot), Eol]]\<close>

text \<open>\<^verbatim>\<open>/^(#{1,6})\s+(.+)$/\<close>\<close>

definition md_heading :: rx where
  "md_heading = seqs [Bol, Grp 1 (Rep 1 (Some 6) (ch CHR ''#'')), plus ws, Grp 2 (plus dot), Eol]"

text \<open>
  The level of a pattern match, from its first group: \<^verbatim>\<open>/bu|Part/i\<close> gives 1,
  \<^verbatim>\<open>/pyeon|jang|Chapter/i\<close> gives 2, \<^verbatim>\<open>/jeol|Section/i\<close> gives 3, anything else the
  initial 1.
\<close>

definition pattern_level :: "jsstring \<Rightarrow> nat" where
  "pattern_level m1 =
     (if rx_test (alts [cu 0xBD80, lit_i ''Part'']) m1 then 1
      else if rx_test (alts [cu 0xD3B8, cu 0xC7A5, lit_i ''Chapter'']) m1 then 2
      else if rx_test (alts [cu 0xC808, lit_i ''Section'']) m1 then 3
      else 1)"

text \<open>The loop over \<^verbatim>\<open>CHAPTER_PATTERNS\<close>: the captures of the first pattern that matches.\<close>

fun first_pattern :: "rx list \<Rightarrow> jsstring \<Rightarrow> captures option" where
  "first_pattern [] s = None"
| "first_pattern (p # ps) s =
     (case rx_exec p s of
        Some (m, caps) \<Rightarrow> Some caps
      | None \<Rightarrow> first_pattern ps s)"

text \<open>
  The three tests of the heuristic: \<^verbatim>\<open>/[A-Z\uAC00-\uD7A3]/\<close>, \<^verbatim>\<open>/[.\u3002,\uFF0C;\uFF1B]$/\<close>
  and \<^verbatim>\<open>/[a-zA-Z\uAC00-\uD7A3]/\<close>.
\<close>

definition has_caps :: rx where
  "has_caps = Sym (\<lambda>c. is_upper c \<or> is_hangul c)"

definition end_punct :: rx where
  "end_punct = seqs [Sym (\<lambda>c. c = 0x2E \<or> c = 0x3002 \<or> c = 0x2C \<or> c = 0xFF0C \<or> c = 0x3B \<or> c = 0xFF1B), Eol]"

definition has_letters :: rx where
  "has_letters = Sym (\<lambda>c. is_lower c \<or> is_upper c \<or> is_hangul c)"

text \<open>
  \<^verbatim>\<open>isChapterHeading\<close>. The case mapping of the runtime,
  \<^verbatim>\<open>String.prototype.toUpperCase\<close>, is the parameter \<open>toUpperCase\<close>: the Unicode
  table behind it is no part of the repository.
\<close>

definition isChapterHeading :: "(jsstring \<Rightarrow> jsstring) \<Rightarrow> jsstring \<Rightarrow> HeadingMatch" where
  "isChapterHeading toUpperCase line =
     (let trimmed = trim line in
      if trimmed = [] then \<lparr>isHeading = False, title = [], level = 0\<rparr>
      else (case rx_exec md_heading trimmed of
              Some (m, mdMatch) \<Rightarrow>
                \<lparr>isHeading = True, title = group mdMatch 2, level = length (group mdMatch 1)\<rparr>
            | None \<Rightarrow>
               (case first_pattern CHAPTER_PATTERNS trimmed of
                  Some match \<Rightarrow>
                    \<lparr>isHeading = True,
                     title = (case match 2 of
                                None \<Rightarrow> group match 1
                              | Some m2 \<Rightarrow>
                                  if m2 = [] then group match 1
                                  else trim (group match 1 @ js '' '' @ m2)),
                     level = pattern_level (group match 1)\<rparr>
                | None \<Rightarrow>
                    if length trimmed \<le> 50 \<and> length trimmed \<ge> 2
                       \<and> (trimmed = toUpperCase trimmed \<and> rx_test has_caps trimmed)
                       \<and> \<not> rx_test end_punct trimmed
                       \<and> rx_test has_letters trimmed
                    then \<lparr>isHeading = True, title = trimmed, level = 2\<rparr>
                    else \<lparr>isHeading = False, title = [], level = 0\<rparr>)))"

text \<open>The part of the runtime's case mapping that lies in ASCII.\<close>

definition ascii_toUpperCase :: "jsstring \<Rightarrow> jsstring" where
  "ascii_toUpperCase s = map ascii_upper s"

section \<open>Readability scorer\<close>

record ReadabilityReport =
  issues :: "jsstring list"
  score :: int
  suggestions :: "jsstring list"

text \<open>\<^verbatim>\<open>lines.filter(l => l.trim())\<close>\<close>

definition nonEmptyLines :: "jsstring list \<Rightarrow> jsstring list" where
  "nonEmptyLines lines = filter (\<lambda>l. trim l \<noteq> []) lines"

text \<open>\<^verbatim>\<open>nonEmptyLines.filter(l => l.length > 200)\<close>\<close>

definition longLines :: "jsstring list \<Rightarrow> jsstring list" where
  "longLines lines = filter (\<lambda>l. length l > 200) (nonEmptyLines lines)"

text \<open>
  \<^verbatim>\<open>longLines.length > nonEmptyLines.length * 0.3\<close>. The source compares doubles; for
  every count a string can have, the rounded product lies on the same side of the integer
  \<open>longLines.length\<close> as the exact one, which is what is written here.
\<close>

definition manyLongLines :: "jsstring list \<Rightarrow> bool" where
  "manyLongLines lines =
     (of_nat (length (longLines lines)) > of_nat (length (nonEmptyLines lines)) * (3 / 10 :: rat))"

text \<open>\<^verbatim>\<open>lines.filter(l => /^#{1,6}\s/.test(l) || isChapterHeading(l).isHeading)\<close>\<close>

definition headings :: "(jsstring \<Rightarrow> jsstring) \<Rightarrow> jsstring list \<Rightarrow> jsstring list" where
  "headings toUpperCase lines =
     filter (\<lambda>l. rx_test md_heading_start l \<or> isHeading (isChapterHeading toUpperCase l)) lines"

text \<open>
  \<^verbatim>\<open>nonEmptyLines.reduce((a, b) => a + b.length, 0) / nonEmptyLines.length\<close>. With no
  non-empty line this is 0 / 0, the value NaN, here \<open>None\<close>; it raises nothing.
\<close>

definition avgLineLength :: "jsstring list \<Rightarrow> rat option" where
  "avgLineLength lines =
     (let total = fold (\<lambda>b a. a + length b) (nonEmptyLines lines) 0;
          n = length (nonEmptyLines lines)
      in if n = 0 then None else Some (of_nat total / of_nat n))"

text \<open>\<^verbatim>\<open>avgLineLength > 150\<close>; a comparison with NaN is false.\<close>

definition fewBreaks :: "jsstring list \<Rightarrow> bool" where
  "fewBreaks lines = (case avgLineLength lines of None \<Rightarrow> False | Some a \<Rightarrow> a > 150)"

text \<open>\<^verbatim>\<open>/  +/g\<close>: a space, then one or more spaces.\<close>

definition double_spaces :: rx where
  "double_spaces = seqs [ch CHR '' '', plus (ch CHR '' '')]"

text \<open>\<^verbatim>\<open>excessiveSpaces && excessiveSpaces.length > 20\<close>\<close>

definition manySpaces :: "jsstring \<Rightarrow> bool" where
  "manySpaces content' =
     (let excessiveSpaces = match_all double_spaces content'
      in excessiveSpaces \<noteq> [] \<and> length excessiveSpaces > 20)"

text \<open>One penalty: an issue, a suggestion, and points off the score.\<close>

definition penalty :: "jsstring \<Rightarrow> jsstring \<Rightarrow> int \<Rightarrow> ReadabilityReport \<Rightarrow> ReadabilityReport" where
  "penalty issue suggestion points r =
     r\<lparr>issues := issues r @ [issue], suggestions := suggestions r @ [suggestion],
       score := score r - points\<rparr>"

text \<open>\<^verbatim>\<open>analyzeReadability\<close>; the messages are the Korean texts of the source.\<close>

definition analyzeReadability :: "(jsstring \<Rightarrow> jsstring) \<Rightarrow> jsstring \<Rightarrow> ReadabilityReport" where
  "analyzeReadability toUpperCase content' =
     (let r0 = \<lparr>issues = [], score = 100, suggestions = []\<rparr>;
          lines = js_split nl content';
          r1 = (if manyLongLines lines
                then penalty
                  (decimal (length (longLines lines)) @
                     [0xAC1C, 0xC758, 0x0020, 0xB9E4, 0xC6B0, 0x0020, 0xAE34, 0x0020, 0xC904,
                      0xC774, 0x0020, 0xAC10, 0xC9C0, 0xB428])
                  [0xC790, 0xB3D9, 0x0020, 0xC904, 0xBC14, 0xAFC8, 0xC744, 0x0020, 0xD65C,
                   0xC131, 0xD654, 0xD558, 0xC138, 0xC694]
                  20 r0
                else r0);
          r2 = (if length (headings toUpperCase lines) = 0 \<and> length content' > 3000
                then penalty
                  [0xBAA9, 0xCC28, 0x002F, 0xC81C, 0xBAA9, 0xC774, 0x0020, 0xAC10, 0xC9C0,
                   0xB418, 0xC9C0, 0x0020, 0xC54A, 0xC74C]
                  [0xCC55, 0xD130, 0x0020, 0xAC10, 0xC9C0, 0xB97C, 0x0020, 0xD65C, 0xC131,
                   0xD654, 0xD558, 0xC138, 0xC694]
                  15 r1
                else r1);
          r3 = (if fewBreaks lines
                then penalty
                  [0xB2E8, 0xB77D, 0x0020, 0xAD6C, 0xBD84, 0xC774, 0x0020, 0xBD80, 0xC871,
                   0xD568]
                  [0xC790, 0xB3D9, 0x0020, 0xC904, 0xBC14, 0xAFC8, 0xC73C, 0xB85C, 0x0020,
                   0xAC00, 0xB3C5, 0xC131, 0xC744, 0x0020, 0xAC1C, 0xC120, 0xD558, 0xC138,
                   0xC694]
                  15 r2
                else r2);
          r4 = (if manySpaces content'
                then penalty
                  [0xBD88, 0xD544, 0xC694, 0xD55C, 0x0020, 0xACF5, 0xBC31, 0xC774, 0x0020,
                   0xB9CE, 0xC74C]
                  [0xACF5, 0xBC31, 0x0020, 0xC81C, 0xAC70, 0xB97C, 0x0020, 0xD65C, 0xC131,
                   0xD654, 0xD558, 0xC138, 0xC694]
                  10 r3
                else r3)
      in r4\<lparr>score := max 0 (score r4)\<rparr>)"

section \<open>Table of contents\<close>

text \<open>The interface \<^verbatim>\<open>TOCEntry\<close>: \<^verbatim>\<open>id\<close>, \<^verbatim>\<open>title\<close>, \<^verbatim>\<open>level\<close>, \<^verbatim>\<open>position\<close>.\<close>

record TOCEntry =
  toc_id :: jsstring
  toc_title :: jsstring
  toc_level :: nat
  position :: int

text \<open>
  The slug of \<^verbatim>\<open>generateHeadingId\<close>:
  \<^verbatim>\<open>text.toLowerCase().replace(/[^a-z0-9\uAC00-\uD7A3\s-]/g, '').replace(/\s+/g, '-')
  .replace(/-+/g, '-').trim()\<close>. The runtime's \<^verbatim>\<open>toLowerCase\<close> is a parameter.
\<close>

definition heading_slug :: "(jsstring \<Rightarrow> jsstring) \<Rightarrow> jsstring \<Rightarrow> jsstring" where
  "heading_slug toLowerCase text' =
     trim
       (replace_all (plus (ch CHR ''-'')) [Txt (js ''-'')]
         (replace_all (plus ws) [Txt (js ''-'')]
           (replace_all
              (Sym (\<lambda>c. \<not> (is_lower c \<or> is_digit c \<or> is_hangul c \<or> is_ws c \<or> c = 0x2D))) []
              (toLowerCase text'))))"

text \<open>\<^verbatim>\<open>return `heading-${slug || index}`;\<close>\<close>

definition generateHeadingId :: "(jsstring \<Rightarrow> jsstring) \<Rightarrow> jsstring \<Rightarrow> nat \<Rightarrow> jsstring" where
  "generateHeadingId toLowerCase text' index' =
     (let slug = heading_slug toLowerCase text'
      in js ''heading-'' @ (if slug \<noteq> [] then slug else decimal index'))"

text \<open>One call of the \<^verbatim>\<open>forEach\<close> callback of \<^verbatim>\<open>extractTableOfContents\<close>, on the pair \<open>(toc, headingIndex)\<close>.\<close>

definition toc_step ::
  "(jsstring \<Rightarrow> jsstring) \<Rightarrow> nat \<times> jsstring \<Rightarrow> TOCEntry list \<times> nat \<Rightarrow> TOCEntry list \<times> nat" where
  "toc_step toLowerCase p st =
     (case p of (index', line) \<Rightarrow>
      (case st of (toc, headingIndex) \<Rightarrow>
        (case rx_exec md_heading line of
           None \<Rightarrow> (toc, headingIndex)
         | Some (m, headingMatch) \<Rightarrow>
             (let level' = length (group headingMatch 1);
                  title' = trim (group headingMatch 2);
                  id' = generateHeadingId toLowerCase title' headingIndex
              in (toc @ [\<lparr>toc_id = id', toc_title = title', toc_level = level',
                          position = int index' + 1\<rparr>],
                  headingIndex + 1)))))"

definition extractTableOfContents :: "(jsstring \<Rightarrow> jsstring) \<Rightarrow> jsstring \<Rightarrow> TOCEntry list" where
  "extractTableOfContents toLowerCase markdown =
     fst (fold (toc_step toLowerCase) (enumerate 0 (js_split nl markdown)) ([], 0))"

definition ascii_toLowerCase :: "jsstring \<Rightarrow> jsstring" where
  "ascii_toLowerCase s = map ascii_lower s"

section \<open>Chapters for export\<close>

record Chapter =
  ch_title :: jsstring
  ch_content :: jsstring
  ch_level :: nat

text \<open>\<^verbatim>\<open>currentChapter\<close>, whose content is still a list of lines.\<close>

record OpenChapter =
  open_title :: jsstring
  open_content :: "jsstring list"
  open_level :: nat

text \<open>\<^verbatim>\<open>/^(#{1,2})\s+(.+)$/\<close>\<close>

definition md_heading12 :: rx where
  "md_heading12 = seqs [Bol, Grp 1 (Rep 1 (Some 2) (ch CHR ''#'')), plus ws, Grp 2 (plus dot), Eol]"

text \<open>The push of a finished chapter: its lines joined and trimmed.\<close>

definition close_chapter :: "OpenChapter \<Rightarrow> Chapter" where
  "close_chapter c =
     \<lparr>ch_title = open_title c, ch_content = trim (js_join nl (open_content c)),
      ch_level = open_level c\<rparr>"

text \<open>One iteration of the loop of \<^verbatim>\<open>splitIntoChapters\<close>, on \<open>(chapters, currentChapter)\<close>.\<close>

definition chapter_step ::
  "jsstring \<Rightarrow> Chapter list \<times> OpenChapter option \<Rightarrow> Chapter list \<times> OpenChapter option" where
  "chapter_step line st =
     (case st of (chapters, currentChapter) \<Rightarrow>
        (case (case rx_exec md_heading12 line of
                 None \<Rightarrow> None
               | Some (m, headingMatch) \<Rightarrow>
                   if length (group headingMatch 1) \<le> 2 then Some headingMatch else None) of
           Some headingMatch \<Rightarrow>
             ((case currentChapter of
                 Some c \<Rightarrow> chapters @ [close_chapter c]
               | None \<Rightarrow> chapters),
              Some \<lparr>open_title = trim (group headingMatch 2), open_content = [],
                    open_level = length (group headingMatch 1)\<rparr>)
         | None \<Rightarrow>
             (case currentChapter of
                Some c \<Rightarrow> (chapters, Some (c\<lparr>open_content := open_content c @ [line]\<rparr>))
              | None \<Rightarrow>
                  (chapters,
                   Some \<lparr>open_title = js ''Introduction'', open_content = [line],
                         open_level = 1\<rparr>))))"

definition splitIntoChapters :: "jsstring \<Rightarrow> Chapter list" where
  "splitIntoChapters markdown =
     (case fold chapter_step (js_split nl markdown) ([], None) of
        (chapters, currentChapter) \<Rightarrow>
          filter (\<lambda>c. length (ch_content c) > 0)
            (case currentChapter of
               Some c \<Rightarrow> chapters @ [close_chapter c]
             | None \<Rightarrow> chapters))"

text \<open>
  The chapters \<^verbatim>\<open>generateEPUB\<close> goes on with: those of \<open>splitIntoChapters\<close>, or, when
  there are none, one chapter with the whole markdown, titled
  \<^verbatim>\<open>options.metadata.title || 'Content'\<close>.
\<close>

definition generateEPUB_chapters :: "jsstring \<Rightarrow> jsstring \<Rightarrow> Chapter list" where
  "generateEPUB_chapters metadata_title markdown =
     (let chapters = splitIntoChapters markdown
      in if length chapters = 0
         then [\<lparr>ch_title = (if metadata_title \<noteq> [] then metadata_title else js ''Content''),
                 ch_content = markdown, ch_level = 1\<rparr>]
         else chapters)"

text \<open>The number a string of decimal digits denotes, for the proofs.\<close>

definition digits_value :: "jsstring \<Rightarrow> nat" where
  "digits_value s = foldl (\<lambda>a d. 10 * a + unat (d - 0x30)) 0 s"

section \<open>Merging chunk results\<close>

text \<open>\<^verbatim>\<open>type ContentType = 'fiction' | 'non-fiction' | 'technical' | 'educational'\<close>\<close>

datatype ContentType = Fiction | NonFiction | Technical | Educational

text \<open>\<^verbatim>\<open>type ImageType = 'illustration' | 'diagram' | 'chart' | 'infographic'\<close>\<close>

datatype ImageType = Illustration | Diagram | Chart | Infographic

text \<open>The \<^verbatim>\<open>position\<close> of an \<^verbatim>\<open>ImageInsertionPoint\<close>: \<^verbatim>\<open>section\<close>, \<^verbatim>\<open>afterParagraph\<close>, \<^verbatim>\<open>lineNumber\<close>.\<close>

record ImagePosition =
  section_name :: jsstring
  afterParagraph :: int
  lineNumber :: int

text \<open>The interface \<^verbatim>\<open>ImageInsertionPoint\<close>.\<close>

record ImageInsertionPoint =
  point_id :: jsstring
  point_position :: ImagePosition
  suggestedType :: ImageType
  context_text :: jsstring
  generatedPrompt :: jsstring
  approved :: bool

text \<open>One element of \<^verbatim>\<open>results\<close>, and \<^verbatim>\<open>ContentAnalysis\<close>, which has the same three fields and two more.\<close>

record ChunkResult =
  tableOfContents :: "TOCEntry list"
  imagePoints :: "ImageInsertionPoint list"
  contentType :: ContentType

record ContentAnalysis = ChunkResult +
  wordCount :: nat
  estimatedPages :: nat

text \<open>
  \<^verbatim>\<open>xs.sort((a, b) => key(a) - key(b))\<close> on integer keys: \<^verbatim>\<open>Array.prototype.sort\<close> is
  stable and the comparator is a consistent order, so the result is the stable ascending
  sort by the key.
\<close>

definition sort_by_key :: "('a \<Rightarrow> int) \<Rightarrow> 'a list \<Rightarrow> 'a list" where
  "sort_by_key key xs = sort_key key xs"

text \<open>
  \<^verbatim>\<open>contentTypeCounts[k] = (contentTypeCounts[k] || 0) + 1\<close> on an object whose keys are
  the four content types: \<^verbatim>\<open>Object.entries\<close> lists string keys in the order of their
  first insertion, so the object is the list of its entries in that order.
\<close>

fun count_up :: "'k \<Rightarrow> ('k \<times> nat) list \<Rightarrow> ('k \<times> nat) list" where
  "count_up k [] = [(k, 1)]"
| "count_up k ((k', n) # es) = (if k = k' then (k', n + 1) # es else (k', n) # count_up k es)"

definition contentTypeCounts :: "ContentType list \<Rightarrow> (ContentType \<times> nat) list" where
  "contentTypeCounts ts = fold count_up ts []"

text \<open>
  \<^verbatim>\<open>Object.entries(contentTypeCounts).sort((a, b) => b[1] - a[1])[0]?.[0] || 'non-fiction'\<close>
\<close>

definition majority :: "ContentType list \<Rightarrow> ContentType" where
  "majority ts =
     (case sort_by_key (\<lambda>e. int (snd e) * (- 1)) (contentTypeCounts ts) of
        [] \<Rightarrow> NonFiction
      | e # _ \<Rightarrow> fst e)"

definition mergeChunkResults :: "ChunkResult list \<Rightarrow> nat \<Rightarrow> ContentAnalysis" where
  "mergeChunkResults results totalWordCount =
     (let allToc = sort_by_key position (concat (map tableOfContents results));
          allImagePoints = sort_by_key (\<lambda>p. lineNumber (point_position p))
                             (concat (map imagePoints results))
      in \<lparr>tableOfContents = allToc, imagePoints = allImagePoints,
           contentType = majority (map contentType results),
           wordCount = totalWordCount,
           estimatedPages = nat \<lceil>(of_nat totalWordCount :: rat) / 250\<rceil>\<rparr>)"

text \<open>The index of the first occurrence of a value in a list (the length, if there is none).\<close>

definition first_index :: "'a list \<Rightarrow> 'a \<Rightarrow> nat" where
  "first_index xs x = length (takeWhile (\<lambda>y. y \<noteq> x) xs)"

section \<open>Preprocessor\<close>

text \<open>The interface \<^verbatim>\<open>PreprocessOptions\<close>.\<close>

record PreprocessOptions =
  autoLineBreak :: bool
  detectChapters :: bool
  removeExtraSpaces :: bool
  fixPunctuation :: bool

text \<open>\<^verbatim>\<open>s.endsWith(t)\<close>\<close>

definition js_endsWith :: "jsstring \<Rightarrow> jsstring \<Rightarrow> bool" where
  "js_endsWith s t = (length t \<le> length s \<and> drop (length s - length t) s = t)"

text \<open>
  \<^verbatim>\<open>detectSentenceEnd(text, pos)\<close>; \<^verbatim>\<open>text[pos]\<close> and \<^verbatim>\<open>text[pos + 1]\<close> are
  \<^verbatim>\<open>undefined\<close> beyond the end. The endings are \<^verbatim>\<open>. ! ?\<close> and U+3002, U+FF01, U+FF1F.
\<close>

definition detectSentenceEnd :: "jsstring \<Rightarrow> nat \<Rightarrow> bool" where
  "detectSentenceEnd text' pos =
     (if \<not> (pos < length text' \<and>
              text' ! pos \<in> set [0x2E, 0x21, 0x3F, 0x3002, 0xFF01, 0xFF1F]) then False
      else if \<not> (pos + 1 < length text') \<or> is_ws (text' ! (pos + 1)) then
        (let prevWord = slice (nat (max 0 (int pos - 10))) pos text'
         in \<not> list_ex (js_endsWith prevWord)
                 [js ''Mr'', js ''Mrs'', js ''Ms'', js ''Dr'', js ''Prof'', js ''Inc'', js ''Ltd'',
                  js ''etc'', js ''vs''])
      else False)"

text \<open>
  The inner loop of step 4, over the indices \<open>j\<close> of the trimmed line, on the pair
  \<open>(processed, currentLine)\<close>.
\<close>

definition break_step :: "jsstring \<Rightarrow> nat \<Rightarrow> jsstring list \<times> jsstring \<Rightarrow> jsstring list \<times> jsstring" where
  "break_step trimmed j st =
     (case st of (processed, currentLine) \<Rightarrow>
        (let currentLine1 = currentLine @ [trimmed ! j] in
         if detectSentenceEnd trimmed j \<and> length currentLine1 \<ge> 40
         then (processed @ [trim currentLine1], [])
         else (processed, currentLine1)))"

text \<open>One iteration of the outer loop of step 4, on \<open>processed\<close>.\<close>

definition line_break_step ::
  "(jsstring \<Rightarrow> jsstring) \<Rightarrow> jsstring \<Rightarrow> jsstring list \<Rightarrow> jsstring list" where
  "line_break_step toUpperCase line processed =
     (let trimmed = trim line in
      if length trimmed \<le> 80 \<or> trimmed = [] then processed @ [line]
      else if isHeading (isChapterHeading toUpperCase trimmed) then processed @ [line]
      else (case fold (break_step trimmed) [0..<length trimmed] (processed, []) of
              (processed1, currentLine) \<Rightarrow>
                if trim currentLine \<noteq> [] then processed1 @ [trim currentLine]
                else processed1))"

text \<open>
  One iteration of the loop of step 5, on \<open>(formatted, prevEmpty)\<close>. The source also
  computes \<^verbatim>\<open>nextEmpty\<close> and never reads it.
\<close>

definition chapter_format_step ::
  "(jsstring \<Rightarrow> jsstring) \<Rightarrow> jsstring \<Rightarrow> jsstring list \<times> bool \<Rightarrow> jsstring list \<times> bool" where
  "chapter_format_step toUpperCase line st =
     (case st of (formatted, prevEmpty) \<Rightarrow>
        (let trimmed = trim line;
             h = isChapterHeading toUpperCase trimmed
         in if trimmed \<noteq> [] \<and> prevEmpty \<and> isHeading h \<and> \<not> (take 1 trimmed = js ''#'')
            then (formatted @ [Nil, replicate (level h) 0x23 @ js '' '' @ title h, Nil], True)
            else (formatted @ [line], trimmed = [])))"

text \<open>
  The clean-up at the end: \<^verbatim>\<open>replace(/\n*(#{1,6}\s+[^\n]+)\n*/g, '\n\n$1\n\n')\<close>,
  \<^verbatim>\<open>replace(/^\n+/, '')\<close> and \<^verbatim>\<open>replace(/\n{3,}/g, '\n\n')\<close>.
\<close>

definition heading_spacing :: "jsstring \<Rightarrow> jsstring" where
  "heading_spacing s =
     replace_all
       (seqs [star (cu nl),
              Grp 1 (seqs [Rep 1 (Some 6) (ch CHR ''#''), plus ws, plus (Sym (\<lambda>c. c \<noteq> nl))]),
              star (cu nl)])
       [Txt [nl, nl], Ref 1, Txt [nl, nl]] s"

definition strip_leading_newlines :: "jsstring \<Rightarrow> jsstring" where
  "strip_leading_newlines s = replace_first (seqs [Bol, plus (cu nl)]) [] s"

definition cap_newlines :: "jsstring \<Rightarrow> jsstring" where
  "cap_newlines s = replace_all (Rep 3 None (cu nl)) [Txt [nl, nl]] s"

text \<open>\<^verbatim>\<open>preprocessContent\<close>, with the runtime's \<^verbatim>\<open>toUpperCase\<close> as a parameter.\<close>

definition preprocessContent ::
  "(jsstring \<Rightarrow> jsstring) \<Rightarrow> jsstring \<Rightarrow> PreprocessOptions \<Rightarrow> jsstring" where
  \<open>preprocessContent toUpperCase content' options =
     (let \<comment> \<open>Step 1: \<^verbatim>\<open>replace(/\r\n/g, '\n').replace(/\r/g, '\n')\<close>\<close>
          result1 = replace_all (cu 0x0D) [Txt [nl]]
                      (replace_all (seqs [cu 0x0D, cu 0x0A]) [Txt [nl]] content');
          \<comment> \<open>Step 2: \<^verbatim>\<open>/([^\n]) {2,}/g\<close> to \<^verbatim>\<open>'$1 '\<close>, \<^verbatim>\<open>/ +\n/g\<close> to a newline,
              \<^verbatim>\<open>/\n{4,}/g\<close> to three newlines\<close>
          result2 =
            (if removeExtraSpaces options
             then replace_all (Rep 4 None (cu nl)) [Txt [nl, nl, nl]]
                    (replace_all (seqs [plus (ch CHR '' ''), cu nl]) [Txt [nl]]
                      (replace_all (seqs [Grp 1 (Sym (\<lambda>c. c \<noteq> nl)), Rep 2 None (ch CHR '' '')])
                         [Ref 1, Txt (js '' '')] result1))
             else result1);
          \<comment> \<open>Step 3: \<^verbatim>\<open>/([.!?])([A-Z\uAC00-\uD7A3])/g\<close> to \<^verbatim>\<open>'$1 $2'\<close>, \<^verbatim>\<open>/\s+([,.])/g\<close> to
              \<^verbatim>\<open>'$1'\<close>, \<^verbatim>\<open>/([\uAC00-\uD7A3])\.([\uAC00-\uD7A3])/g\<close> to \<^verbatim>\<open>'$1. $2'\<close>\<close>
          result3 =
            (if fixPunctuation options
             then replace_all (seqs [Grp 1 (Sym is_hangul), ch CHR ''.'', Grp 2 (Sym is_hangul)])
                    [Ref 1, Txt (js ''. ''), Ref 2]
                    (replace_all (seqs [plus ws, Grp 1 (Sym (\<lambda>c. c = 0x2C \<or> c = 0x2E))]) [Ref 1]
                      (replace_all
                         (seqs [Grp 1 (Sym (\<lambda>c. c = 0x2E \<or> c = 0x21 \<or> c = 0x3F)),
                                Grp 2 (Sym (\<lambda>c. is_upper c \<or> is_hangul c))])
                         [Ref 1, Txt (js '' ''), Ref 2] result2))
             else result2);
          \<comment> \<open>Step 4\<close>
          result4 =
            (if autoLineBreak options
             then js_join nl (fold (line_break_step toUpperCase) (js_split nl result3) [])
             else result3);
          \<comment> \<open>Step 5\<close>
          result5 =
            (if detectChapters options
             then js_join nl
                    (fst (fold (chapter_format_step toUpperCase) (js_split nl result4) ([], True)))
             else result4)
      in cap_newlines (strip_leading_newlines (heading_spacing result5)))\<close>

text \<open>Three consecutive newlines somewhere in a string, for stating the cap.\<close>

fun has_nl3 :: "jsstring \<Rightarrow> bool" where
  "has_nl3 (a # b # c # r) = ((a = nl \<and> b = nl \<and> c = nl) \<or> has_nl3 (b # c # r))"
| "has_nl3 r = False"

text \<open>The number of newlines a string begins with.\<close>

definition lead_nl :: "jsstring \<Rightarrow> nat" where
  "lead_nl s = length (takeWhile (\<lambda>c. c = nl) s)"

section \<open>Properties\<close>

subsection \<open>Auxiliary facts\<close>

lemma overlapLines_eq: "overlapLines = 7"
  by code_simp

lemma bitlen_bounds: "0 < b \<Longrightarrow> 2 ^ (b - 1) \<le> m \<Longrightarrow> m < 2 ^ b \<Longrightarrow> bitlen m = b"
proof (induction b arbitrary: m)
  case 0
  then show ?case by simp
next
  case (Suc b)
  show ?case
  proof (cases "b = 0")
    case True
    with Suc.prems have "m = 1" by simp
    then show ?thesis using True by (simp add: bitlen.simps)
  next
    case False
    from Suc.prems have m: "2 ^ b \<le> m" "m < 2 * 2 ^ b" by simp_all
    from False obtain b' where b': "b = Suc b'" by (cases b) auto
    have "2 ^ (b - 1) \<le> m div 2" using m b' by simp
    moreover have "m div 2 < 2 ^ b" using m by simp
    ultimately have "bitlen (m div 2) = b" using Suc.IH False by simp
    moreover have "m \<noteq> 0" using m by auto
    ultimately show ?thesis by (subst bitlen.simps) simp
  qed
qed

lemma floor_times_07_1: "floor_times_07 1 = 0"
proof -
  have "bitlen 6305039478318694 = 53" by (rule bitlen_bounds) simp_all
  then show ?thesis by (simp add: floor_times_07_def round53_def double_07_def)
qed

lemma floor_times_07_2: "floor_times_07 2 = 1"
proof -
  have "bitlen 12610078956637388 = 54" by (rule bitlen_bounds) simp_all
  then show ?thesis by (simp add: floor_times_07_def round53_def double_07_def Let_def)
qed

lemma floor_times_07_90: "floor_times_07 90 = 62"
proof -
  have "bitlen 567453553048682460 = 59" by (rule bitlen_bounds) simp_all
  then show ?thesis by (simp add: floor_times_07_def round53_def double_07_def Let_def)
qed

subsection \<open>The iterations of a quantifier\<close>

text \<open>Any bound above \<open>lo + length rest\<close> gives the same matches: the bound of \<open>run\<close> is enough.\<close>

lemma conservesD:
  "conserves f \<Longrightarrow> (k', s', c') \<in> set (f (k, s, c)) \<Longrightarrow>
   k' + length s' = k + length s \<and> length s' \<le> length s"
  unfolding conserves_def by blast

lemma rep_conserves:
  assumes f: "conserves f"
  shows "conserves (rep f n lo hi)"
proof (induction n arbitrary: lo hi)
  case 0
  show ?case by (simp add: conserves_def)
next
  case (Suc n)
  show ?case
    unfolding conserves_def
  proof (intro allI impI)
    fix k s c k' s' c'
    assume "(k', s', c') \<in> set (rep f (Suc n) lo hi (k, s, c))"
    then consider "(k', s', c') = (k, s, c)"
      | st where "st \<in> set (f (k, s, c))"
          "(k', s', c') \<in> set (rep f n (lo - 1) (map_option (\<lambda>h. h - 1) hi) st)"
      by (auto split: if_splits)
    then show "k' + length s' = k + length s \<and> length s' \<le> length s"
    proof cases
      case 1
      then show ?thesis by simp
    next
      case 2
      obtain k1 s1 c1 where st: "st = (k1, s1, c1)" by (cases st)
      from conservesD[OF f] 2(1) st
      have a: "k1 + length s1 = k + length s \<and> length s1 \<le> length s" by blast
      from conservesD[OF Suc.IH] 2(2) st
      have b: "k' + length s' = k1 + length s1 \<and> length s' \<le> length s1" by blast
      from a b show ?thesis by simp
    qed
  qed
qed

lemma run_conserves: "conserves (run r)"
proof (induction r)
  case (Sym P)
  show ?case by (auto simp: conserves_def split: list.splits if_splits)
next
  case Eps
  show ?case by (simp add: conserves_def)
next
  case (Seq a b)
  show ?case
    unfolding conserves_def
  proof (intro allI impI)
    fix k s c k' s' c'
    assume "(k', s', c') \<in> set (run (Seq a b) (k, s, c))"
    then obtain st where 1: "st \<in> set (run a (k, s, c))" and 2: "(k', s', c') \<in> set (run b st)"
      by auto
    obtain k1 s1 c1 where st: "st = (k1, s1, c1)" by (cases st)
    from conservesD[OF Seq.IH(1)] 1 st
    have x: "k1 + length s1 = k + length s \<and> length s1 \<le> length s" by blast
    from conservesD[OF Seq.IH(2)] 2 st
    have y: "k' + length s' = k1 + length s1 \<and> length s' \<le> length s1" by blast
    from x y show "k' + length s' = k + length s \<and> length s' \<le> length s" by simp
  qed
next
  case (Alt a b)
  show ?case
    unfolding conserves_def
  proof (intro allI impI)
    fix k s c k' s' c'
    assume "(k', s', c') \<in> set (run (Alt a b) (k, s, c))"
    then have "(k', s', c') \<in> set (run a (k, s, c)) \<or> (k', s', c') \<in> set (run b (k, s, c))"
      by simp
    with conservesD[OF Alt.IH(1)] conservesD[OF Alt.IH(2)]
    show "k' + length s' = k + length s \<and> length s' \<le> length s" by blast
  qed
next
  case (Rep lo hi r)
  show ?case
    unfolding conserves_def
  proof (intro allI impI)
    fix k s c k' s' c'
    assume "(k', s', c') \<in> set (run (Rep lo hi r) (k, s, c))"
    then have "(k', s', c') \<in> set (rep (run r) (Suc (lo + length s)) lo hi (k, s, c))"
      by (simp del: rep.simps)
    from conservesD[OF rep_conserves[OF Rep.IH] this]
    show "k' + length s' = k + length s \<and> length s' \<le> length s" .
  qed
next
  case (Grp n r)
  then show ?case by (fastforce simp: conserves_def)
next
  case Bol
  show ?case by (simp add: conserves_def)
next
  case Eol
  show ?case by (simp add: conserves_def)
qed

lemma rep_fuel_enough:
  assumes f: "conserves f"
  shows "lo + length s < n \<Longrightarrow> lo + length s < m \<Longrightarrow>
         rep f n lo hi (k, s, c) = rep f m lo hi (k, s, c)"
proof (induction n arbitrary: m lo hi k s c)
  case 0
  then show ?case by simp
next
  case (Suc n)
  from Suc.prems(2) obtain m' where m: "m = Suc m'" by (cases m) auto
  have "rep f n (lo - 1) (map_option (\<lambda>h. h - 1) hi) st
      = rep f m' (lo - 1) (map_option (\<lambda>h. h - 1) hi) st"
    if st: "st \<in> set (filter (\<lambda>st'. 0 < lo \<or> fst (k, s, c) < fst st') (f (k, s, c)))" for st
  proof -
    obtain k1 s1 c1 where st1: "st = (k1, s1, c1)" by (cases st)
    from st st1 have mem: "(k1, s1, c1) \<in> set (f (k, s, c))" and prog: "0 < lo \<or> k < k1"
      by auto
    from conservesD[OF f mem] have cons: "k1 + length s1 = k + length s" "length s1 \<le> length s"
      by auto
    from prog cons have "(lo - 1) + length s1 < lo + length s" by auto
    with Suc.prems m have "(lo - 1) + length s1 < n" "(lo - 1) + length s1 < m'" by auto
    from Suc.IH[OF this] st1 show ?thesis by simp
  qed
  then have eq: "map (rep f n (lo - 1) (map_option (\<lambda>h. h - 1) hi))
               (filter (\<lambda>st'. 0 < lo \<or> fst (k, s, c) < fst st') (f (k, s, c)))
           = map (rep f m' (lo - 1) (map_option (\<lambda>h. h - 1) hi))
               (filter (\<lambda>st'. 0 < lo \<or> fst (k, s, c) < fst st') (f (k, s, c)))"
    by (intro map_cong refl) blast
  show ?case unfolding m by (simp only: rep.simps eq)
qed

lemma run_Rep_any_fuel:
  "lo + length s < n \<Longrightarrow> run (Rep lo hi r) (k, s, c) = rep (run r) n lo hi (k, s, c)"
  using rep_fuel_enough[OF run_conserves[of r], where lo = lo and s = s
      and n = "Suc (lo + length s)" and m = n and hi = hi and k = k and c = c]
  by (simp del: rep.simps)

subsection \<open>split and join\<close>

lemma js_split_not_Nil [simp]: "js_split sep s \<noteq> []"
  by (induction s) (auto split: list.splits)

lemma js_split_append:
  "sep \<notin> set l \<Longrightarrow> js_split sep (l @ sep # r) = l # js_split sep r"
  by (induction l) auto

lemma js_split_no_sep: "sep \<notin> set l \<Longrightarrow> js_split sep l = [l]"
  by (induction l) auto

lemma js_split_lines_no_sep: "l \<in> set (js_split sep s) \<Longrightarrow> sep \<notin> set l"
  by (induction s arbitrary: l) (auto split: if_splits list.splits)

lemma js_join_split [simp]: "js_join sep (js_split sep s) = s"
proof (induction s)
  case Nil
  then show ?case by simp
next
  case (Cons c s)
  obtain l ls where sp: "js_split sep s = l # ls"
    by (cases "js_split sep s") auto
  show ?case
  proof (cases "c = sep")
    case True
    with Cons sp show ?thesis by simp
  next
    case False
    with Cons sp show ?thesis by (cases ls) auto
  qed
qed

lemma js_split_join:
  "ls \<noteq> [] \<Longrightarrow> \<forall>l\<in>set ls. sep \<notin> set l \<Longrightarrow> js_split sep (js_join sep ls) = ls"
proof (induction ls rule: js_join.induct)
  case (1 sep)
  then show ?case by simp
next
  case (2 sep l)
  then show ?case by (simp add: js_split_no_sep)
next
  case (3 sep l m ls)
  then show ?case by (simp add: js_split_append)
qed

lemma js_join_append:
  "xs \<noteq> [] \<Longrightarrow> ys \<noteq> [] \<Longrightarrow> js_join sep (xs @ ys) = js_join sep xs @ sep # js_join sep ys"
proof (induction xs rule: js_join.induct)
  case (1 sep)
  then show ?case by simp
next
  case (2 sep l)
  then show ?case by (cases ys) auto
next
  case (3 sep l m ls)
  then show ?case by simp
qed

lemma js_split_append_lines:
  assumes "ls \<noteq> []" "\<forall>l\<in>set ls. sep \<notin> set l"
  shows "js_split sep (s @ sep # js_join sep ls) = js_split sep s @ ls"
proof -
  have "js_split sep (js_join sep (js_split sep s @ ls)) = js_split sep s @ ls"
    using assms by (intro js_split_join) (auto dest: js_split_lines_no_sep)
  moreover have "js_join sep (js_split sep s @ ls) = s @ sep # js_join sep ls"
    using assms by (simp add: js_join_append)
  ultimately show ?thesis by simp
qed

subsection \<open>slices\<close>

lemma slice_snoc: "a \<le> i \<Longrightarrow> i < length L \<Longrightarrow> slice a i L @ [L ! i] = slice a (Suc i) L"
  by (simp add: slice_def Suc_diff_le take_Suc_conv_app_nth)

lemma take_slice: "a + s \<le> i \<Longrightarrow> take s (slice a i L) = slice a (a + s) L"
  by (simp add: slice_def min_def)

lemma drop_slice: "drop d (slice a i L) = slice (a + d) i L"
  by (simp add: slice_def drop_take add.commute)

lemma length_slice: "i \<le> length L \<Longrightarrow> length (slice a i L) = i - a"
  by (simp add: slice_def)

lemma slice_full: "slice 0 (length L) L = L"
  by (simp add: slice_def)

lemma scan_split_bounds:
  "j \<le> d \<Longrightarrow> 0 < d \<Longrightarrow> 0 < scan_split cur lo d j \<and> scan_split cur lo d j \<le> d"
  by (induction j) auto

lemma dropWhile_snoc_neq_Nil: "\<not> P c \<Longrightarrow> dropWhile P (xs @ [c]) \<noteq> []"
  by (induction xs) auto

lemma trim_Cons_neq_Nil: "\<not> is_ws c \<Longrightarrow> trim (c # cs) \<noteq> []"
  by (simp add: trim_def dropWhile_snoc_neq_Nil)

lemma exec_from_Bol_later:
  "exec_from (Seq Bol r) (Suc k) s = None"
  by (induction s arbitrary: k) (simp_all add: match_here_def)

lemma md_heading_start_not_hash:
  "c \<noteq> 0x23 \<Longrightarrow> \<not> rx_test md_heading_start (c # cs)"
  by (simp add: rx_test_def rx_exec_def md_heading_start_def match_here_def ch_def
      exec_from_Bol_later)

lemma split_point_Cons: "\<not> is_ws c \<Longrightarrow> c \<noteq> 0x23 \<Longrightarrow> \<not> split_point (c # cs)"
  by (simp add: split_point_def trim_Cons_neq_Nil md_heading_start_not_hash)

lemma split_point_Nil: "split_point []"
  by (simp add: split_point_def trim_def)

lemma replicate_3999: "replicate 3999 x = x # replicate 3998 x"
proof -
  have "(3999::nat) = Suc 3998" by simp
  then show ?thesis by (simp only: replicate_Suc)
qed

lemma a_not_ws: "\<not> is_ws 0x61" "(0x61::jschar) \<noteq> 0x23" "nl \<noteq> 0x61"
  by (simp_all add: is_ws_def in_range_def nl_def)

subsection \<open>Chunker\<close>

lemma span_okI:
  assumes "a < b" "b \<le> length L" "\<forall>l\<in>set L. nl \<notin> set l" "c = js_join nl (slice a b L)"
  shows "span_ok L \<lparr>index = n, content = c, startLine = s, endLine = e, isFirst = f, isLast = g\<rparr> (a, b)"
proof -
  have ne: "slice a b L \<noteq> []" using assms(1,2) by (simp add: slice_def)
  have "\<forall>l\<in>set (slice a b L). nl \<notin> set l"
    using assms(3) by (auto simp: slice_def dest!: in_set_takeD in_set_dropD)
  with ne have "js_split nl (js_join nl (slice a b L)) = slice a b L"
    by (rule js_split_join)
  with assms show ?thesis by (simp add: span_ok_def)
qed

lemma chunk_step_inv:
  assumes inv: "chunk_inv L i st spans a" and i: "i < length L"
    and lines: "\<forall>l\<in>set L. nl \<notin> set l"
  shows "\<exists>spans' a'. chunk_inv L (Suc i) (chunk_step (i, L ! i) st) spans' a'"
proof (cases "currentLength st + (length (L ! i) + 1) > CHUNK_SIZE \<and> length (currentChunk st) > 0")
  case False
  have "currentChunk st @ [L ! i] = slice a (Suc i) L"
    using inv i by (simp add: chunk_inv_def slice_snoc)
  with False inv i have "chunk_inv L (Suc i) (chunk_step (i, L ! i) st) spans a"
    by (auto simp: chunk_inv_def chunk_step_def Let_def overlap_link_def split: if_splits)
  then show ?thesis by blast
next
  case True
  define cur where "cur = currentChunk st"
  define s where "s = scan_split cur (floor_times_07 (length cur)) (length cur) (length cur)"
  define a' where "a' = a + (s - overlapLines)"
  have cur: "cur = slice a i L" using inv by (simp add: chunk_inv_def cur_def)
  have len: "length cur = i - a" using inv cur by (simp add: chunk_inv_def length_slice)
  have pos: "0 < length cur" using True by (simp add: cur_def)
  then have ai: "a < i" using len by simp
  have s: "0 < s" "s \<le> i - a"
    using scan_split_bounds[of "length cur" "length cur" cur "floor_times_07 (length cur)"] pos len
    by (simp_all add: s_def)
  have keep: "nat (max (int s - int overlapLines) 0) = s - overlapLines" by simp
  have newcur: "drop (s - overlapLines) cur @ [L ! i] = slice a' (Suc i) L"
    using s ai i by (simp add: cur drop_slice a'_def slice_snoc)
  have content': "js_join nl (slice 0 s cur) = js_join nl (slice a (a + s) L)"
    using s by (simp add: cur slice_def take_slice[unfolded slice_def, of a s i L] min_def)
  let ?c = "\<lparr>index = chunkIndex st, content = js_join nl (slice 0 s cur),
             startLine = chunkStartLine st, endLine = chunkStartLine st + int s - 1,
             isFirst = (length (chunks st) = 0), isLast = False\<rparr>"
  have ok: "span_ok L ?c (a, a + s)"
    using s ai i lines content' by (intro span_okI) auto
  have step: "chunk_step (i, L ! i) st =
      st\<lparr>chunks := chunks st @ [?c], chunkIndex := chunkIndex st + 1,
         currentChunk := drop (s - overlapLines) cur @ [L ! i],
         currentLength := length (js_join nl (drop (s - overlapLines) cur)) + (length (L ! i) + 1),
         chunkStartLine := int i - int (length (drop (s - overlapLines) cur)) + 1\<rparr>"
    using True by (simp add: chunk_step_def Let_def cur_def[symmetric] s_def[symmetric] keep)
  have link: "spans = [] \<or> overlap_link (last spans) (a, a + s)"
    using inv by (auto simp: chunk_inv_def overlap_link_def split: if_splits)
  have "chunk_inv L (Suc i) (chunk_step (i, L ! i) st) (spans @ [(a, a + s)]) a'"
    unfolding chunk_inv_def step
    using inv ok newcur s ai i link
    by (auto simp: chunk_inv_def a'_def overlap_link_def successively_append_iff
        intro!: list_all2_appendI split: if_splits)
  then show ?thesis by blast
qed

lemma chunk_fold_inv:
  assumes "chunk_inv L i st spans a" "drop i L = ls" "\<forall>l\<in>set L. nl \<notin> set l"
  shows "\<exists>spans' a'. chunk_inv L (length L) (fold chunk_step (enumerate i ls) st) spans' a'"
  using assms
proof (induction ls arbitrary: i st spans a)
  case Nil
  then have "i = length L" by (simp add: chunk_inv_def)
  with Nil show ?case by auto
next
  case (Cons l ls)
  from Cons.prems(2) have i: "i < length L"
    by (metis drop_all linorder_not_less list.distinct(1))
  with Cons.prems(2) have l: "L ! i = l" and rest: "drop (Suc i) L = ls"
    by (metis Cons_nth_drop_Suc list.inject)+
  from chunk_step_inv[OF Cons.prems(1) i Cons.prems(3)] obtain spans' a'
    where "chunk_inv L (Suc i) (chunk_step (i, L ! i) st) spans' a'" by blast
  from Cons.IH[OF this rest Cons.prems(3)] l show ?case by simp
qed

lemma mark_last_span_ok:
  "list_all2 (span_ok L) cs spans \<Longrightarrow> list_all2 (span_ok L) (mark_last cs) spans"
  by (auto simp: mark_last_def list_all2_conv_all_nth span_ok_def nth_list_update)

lemma spans_cover:
  "successively overlap_link spans \<Longrightarrow> spans \<noteq> [] \<Longrightarrow> fst (hd spans) \<le> x \<Longrightarrow>
   x < snd (last spans) \<Longrightarrow> \<exists>p\<in>set spans. fst p \<le> x \<and> x < snd p"
proof (induction spans rule: induct_list012)
  case 1
  then show ?case by simp
next
  case (2 p)
  then show ?case by simp
next
  case (3 p q ps)
  show ?case
  proof (cases "x < snd p")
    case True
    with 3 show ?thesis by auto
  next
    case False
    with 3 have "\<exists>r\<in>set (q # ps). fst r \<le> x \<and> x < snd r"
      by (auto simp: overlap_link_def)
    then show ?thesis by auto
  qed
qed

text \<open>
  C3 (as amended): every chunk holds at least one line of the document (the line, and so
  the content, may be the empty string); its content is a run of consecutive lines
  \<open>a..<b\<close> of the document joined by newlines; the first chunk starts at line 0, every
  later chunk starts no later than the line behind the end of its predecessor and at most
  \<open>overlapLines\<close> = 7 lines before that end, and the last chunk ends with the last
  line. Hence every line of the document lies in some chunk, in its original order.
\<close>

theorem splitIntoChunks_cover:
  "\<exists>spans. list_all2 (span_ok (js_split nl D)) (splitIntoChunks D) spans \<and>
     successively overlap_link spans \<and> spans \<noteq> [] \<and>
     fst (hd spans) = 0 \<and> snd (last spans) = length (js_split nl D) \<and>
     (\<forall>x < length (js_split nl D). \<exists>p\<in>set spans. fst p \<le> x \<and> x < snd p)"
proof -
  define L where "L = js_split nl D"
  have lines: "\<forall>l\<in>set L. nl \<notin> set l"
    by (auto simp: L_def dest: js_split_lines_no_sep)
  have n: "0 < length L" by (simp add: L_def)
  have "chunk_inv L 0 chunker_init [] 0"
    by (simp add: chunk_inv_def chunker_init_def slice_def)
  from chunk_fold_inv[OF this _ lines, of L] obtain spans a
    where inv: "chunk_inv L (length L) (fold chunk_step (enumerate 0 L) chunker_init) spans a"
    by auto
  define st where "st = fold chunk_step (enumerate 0 L) chunker_init"
  have a: "a < length L" and cur: "currentChunk st = slice a (length L) L"
    using inv n by (simp_all add: chunk_inv_def st_def)
  then have curne: "length (currentChunk st) > 0" by (simp add: length_slice)
  let ?c = "\<lparr>index = chunkIndex st, content = js_join nl (currentChunk st),
             startLine = chunkStartLine st, endLine = int (length L) - 1,
             isFirst = (length (chunks st) = 0), isLast = True\<rparr>"
  have eq: "splitIntoChunks D = mark_last (chunks st @ [?c])"
    using curne by (simp add: splitIntoChunks_def Let_def L_def[symmetric] st_def[symmetric])
  have ok: "span_ok L ?c (a, length L)"
    using a lines cur by (intro span_okI) auto
  let ?spans = "spans @ [(a, length L)]"
  have all: "list_all2 (span_ok L) (splitIntoChunks D) ?spans"
    unfolding eq using inv ok
    by (intro mark_last_span_ok list_all2_appendI) (auto simp: chunk_inv_def st_def)
  have succ: "successively overlap_link ?spans"
    using inv by (auto simp: chunk_inv_def successively_append_iff overlap_link_def split: if_splits)
  have hd0: "fst (hd ?spans) = 0"
    using inv by (cases spans) (auto simp: chunk_inv_def)
  have cover: "\<forall>x < length L. \<exists>p\<in>set ?spans. fst p \<le> x \<and> x < snd p"
  proof (intro allI impI)
    fix x assume "x < length L"
    with spans_cover[OF succ, of x] hd0 show "\<exists>p\<in>set ?spans. fst p \<le> x \<and> x < snd p"
      by simp
  qed
  show ?thesis
    unfolding L_def[symmetric]
    by (rule exI[of _ ?spans]) (use all succ hd0 cover in simp)
qed

theorem splitIntoChunks_cover_witness:
  "\<exists>spans. list_all2 (span_ok [js ''ab'', js ''c'']) (splitIntoChunks (js ''ab'' @ nl # js ''c'')) spans \<and>
     successively overlap_link spans \<and> spans \<noteq> [] \<and>
     fst (hd spans) = 0 \<and> snd (last spans) = 2"
proof -
  have "js_split nl (js ''ab'' @ nl # js ''c'') = [js ''ab'', js ''c'']"
    by (simp add: js_def nl_def)
  with splitIntoChunks_cover[of "js ''ab'' @ nl # js ''c''"] show ?thesis
    by auto
qed

text \<open>
  C3 (as stated) fails on its first half: a document whose first line is empty and whose
  second line does not fit makes the first chunk the single empty line, with empty content.
\<close>

theorem splitIntoChunks_empty_content:
  "content (hd (splitIntoChunks (nl # replicate 8000 0x61))) = []"
proof -
  have sp: "js_split nl (nl # replicate 8000 0x61) = [Nil, replicate 8000 0x61]"
    using js_split_append[of nl "[]" "replicate 8000 0x61"]
    by (simp add: js_split_no_sep a_not_ws)
  show ?thesis
    unfolding splitIntoChunks_def sp
    by (simp add: Let_def chunk_step_def chunker_init_def CHUNK_SIZE_def
        floor_times_07_1 split_point_Nil overlapLines_eq slice_def mark_last_def)
qed

text \<open>
  C1: three lines of 3999 code units. The third line closes the chunk of the first two;
  all of them are kept as overlap, so the last chunk holds the lines 0..2, yet its
  \<open>startLine\<close> is 1: \<^verbatim>\<open>chunkStartLine = i - keepLines.length + 1\<close> is one too many.
\<close>

theorem splitIntoChunks_startLine_off_by_one:
  "length (splitIntoChunks (replicate 3999 0x61 @ nl # replicate 3999 0x61 @ nl # replicate 3999 0x61)) = 2
   \<and> startLine (splitIntoChunks (replicate 3999 0x61 @ nl # replicate 3999 0x61 @ nl # replicate 3999 0x61) ! 1) = 1
   \<and> endLine (splitIntoChunks (replicate 3999 0x61 @ nl # replicate 3999 0x61 @ nl # replicate 3999 0x61) ! 1) = 2
   \<and> content (splitIntoChunks (replicate 3999 0x61 @ nl # replicate 3999 0x61 @ nl # replicate 3999 0x61) ! 1)
       = js_join nl (slice 0 3 (js_split nl (replicate 3999 0x61 @ nl # replicate 3999 0x61 @ nl # replicate 3999 0x61)))
   \<and> content (splitIntoChunks (replicate 3999 0x61 @ nl # replicate 3999 0x61 @ nl # replicate 3999 0x61) ! 1)
       \<noteq> js_join nl (slice 1 3 (js_split nl (replicate 3999 0x61 @ nl # replicate 3999 0x61 @ nl # replicate 3999 0x61)))"
proof -
  let ?l = "replicate 3999 (0x61::jschar)"
  have sp: "js_split nl (?l @ nl # ?l @ nl # ?l) = [?l, ?l, ?l]"
    by (simp add: js_split_append js_split_no_sep a_not_ws)
  have np: "\<not> split_point ?l"
    unfolding replicate_3999 by (rule split_point_Cons) (simp_all add: a_not_ws)
  show ?thesis
    unfolding splitIntoChunks_def sp
    by (simp add: Let_def chunk_step_def chunker_init_def CHUNK_SIZE_def
        floor_times_07_2 np overlapLines_eq slice_def mark_last_def numeral_2_eq_2 numeral_3_eq_3)
qed

text \<open>
  C9: \<open>needsChunking\<close> is false exactly when the document has at most \<open>CHUNK_SIZE\<close>
  code units, and \<open>CHUNK_SIZE\<close> is 8000.
\<close>

theorem needsChunking_iff:
  "(needsChunking D = False) = (length D \<le> CHUNK_SIZE) \<and> CHUNK_SIZE = 8000"
  by (auto simp: needsChunking_def CHUNK_SIZE_def)

subsection \<open>Readability scorer\<close>

text \<open>
  C10: on the empty string \<open>analyzeReadability\<close> returns score 100 with no issue and
  no suggestion, whatever the case mapping of the runtime. There is no non-empty line,
  so the average line length is 0 / 0 (NaN, \<open>None\<close>); the comparison with it is
  false and nothing is raised.
\<close>

theorem analyzeReadability_empty:
  "analyzeReadability toUpperCase [] = \<lparr>issues = [], score = 100, suggestions = []\<rparr>
   \<and> avgLineLength (js_split nl []) = None"
  by (simp add: analyzeReadability_def Let_def manyLongLines_def longLines_def nonEmptyLines_def
      headings_def fewBreaks_def avgLineLength_def manySpaces_def match_all_def match_here_def
      double_spaces_def ch_def plus_def trim_def)

subsection \<open>The matcher on a quantified single code unit\<close>

lemma rep_single:
  assumes f: "\<And>k s caps. f (k, s, caps) =
      (case s of [] \<Rightarrow> [] | c # cs \<Rightarrow> if P c then [(Suc k, cs, caps)] else [])"
  shows "lo + length s < fuel \<Longrightarrow>
   (length (takeWhile P s) < lo \<longrightarrow> rep f fuel lo None (k, s, caps) = []) \<and>
   (lo \<le> length (takeWhile P s) \<longrightarrow>
      (\<exists>more. rep f fuel lo None (k, s, caps) =
         (k + length (takeWhile P s), drop (length (takeWhile P s)) s, caps) # more))"
proof (induction fuel arbitrary: lo s k)
  case 0
  then show ?case by simp
next
  case (Suc n)
  show ?case
  proof (cases s)
    case Nil
    then show ?thesis by (cases "lo = 0") (auto simp: f)
  next
    case (Cons c cs)
    show ?thesis
    proof (cases "P c")
      case False
      with Cons show ?thesis by (cases "lo = 0") (auto simp: f)
    next
      case True
      have fuel: "(lo - 1) + length cs < n" using Suc.prems Cons by simp
      note IH = Suc.IH[OF fuel, of "Suc k"]
      show ?thesis
      proof (cases "lo = 0")
        case True
        with IH obtain more where
          "rep f n 0 None (Suc k, cs, caps) =
             (Suc k + length (takeWhile P cs), drop (length (takeWhile P cs)) cs, caps) # more"
          by auto
        with True Cons \<open>P c\<close> show ?thesis by (simp add: f)
      next
        case False
        with IH Cons \<open>P c\<close> show ?thesis by (auto simp: f)
      qed
    qed
  qed
qed

lemma run_Rep_Sym_Nil:
  "length (takeWhile P s) < lo \<Longrightarrow> run (Rep lo None (Sym P)) (k, s, caps) = []"
  using rep_single[of "run (Sym P)" P lo s "Suc (lo + length s)" k caps] by simp

lemma run_Rep_Sym_Cons:
  "lo \<le> length (takeWhile P s) \<Longrightarrow>
   \<exists>more. run (Rep lo None (Sym P)) (k, s, caps) =
     (k + length (takeWhile P s), drop (length (takeWhile P s)) s, caps) # more"
  using rep_single[of "run (Sym P)" P lo s "Suc (lo + length s)" k caps] by simp

lemma match_here_double_spaces:
  "match_here double_spaces k s =
     (if 2 \<le> length (takeWhile (\<lambda>x. x = 0x20) s)
      then Some (length (takeWhile (\<lambda>x. x = 0x20) s), Map.empty) else None)"
proof (cases s)
  case Nil
  then show ?thesis by (simp add: match_here_def double_spaces_def ch_def plus_def)
next
  case (Cons c cs)
  show ?thesis
  proof (cases "c = 0x20")
    case False
    with Cons show ?thesis by (simp add: match_here_def double_spaces_def ch_def plus_def)
  next
    case True
    let ?t = "length (takeWhile (\<lambda>x. x = 0x20) cs)"
    show ?thesis
    proof (cases "1 \<le> ?t")
      case True
      from run_Rep_Sym_Cons[OF True, of "Suc k" Map.empty] obtain more where
        "run (Rep 1 None (Sym (\<lambda>x. x = 0x20))) (Suc k, cs, Map.empty) =
           (Suc k + ?t, drop ?t cs, Map.empty) # more" by blast
      with True Cons \<open>c = 0x20\<close> show ?thesis
        by (simp add: match_here_def double_spaces_def ch_def plus_def del: run.simps(5))
    next
      case False
      then have t: "?t < 1" by arith
      then have "?t = 0" by arith
      then have e: "takeWhile (\<lambda>x. x = 0x20) cs = []" by simp
      from run_Rep_Sym_Nil[OF t, of "Suc k" Map.empty]
      have "run (Rep 1 None (Sym (\<lambda>x. x = 0x20))) (Suc k, cs, Map.empty) = []" .
      with e Cons \<open>c = 0x20\<close> show ?thesis
        by (simp add: match_here_def double_spaces_def ch_def plus_def del: run.simps(5))
    qed
  qed
qed

lemma takeWhile_space_append:
  "takeWhile (\<lambda>x. x = 0x20) (a @ nl # b) = takeWhile (\<lambda>x. x = (0x20::jschar)) a"
  by (induction a) (auto simp: nl_def)

lemma matches_from_double_spaces:
  "s \<noteq> [] \<Longrightarrow> matches_from double_spaces k s =
     (if 2 \<le> length (takeWhile (\<lambda>x. x = 0x20) s)
      then take (length (takeWhile (\<lambda>x. x = 0x20) s)) s #
           matches_from double_spaces (k + length (takeWhile (\<lambda>x. x = 0x20) s))
             (drop (length (takeWhile (\<lambda>x. x = 0x20) s)) s)
      else matches_from double_spaces (Suc k) (tl s))"
  by (cases s) (simp_all add: match_here_double_spaces del: takeWhile.simps)

lemma double_spaces_mono:
  "length (matches_from double_spaces k a) \<le> length (matches_from double_spaces k' (a @ nl # b))"
proof (induction a arbitrary: k k' rule: length_induct)
  case (1 a)
  show ?case
  proof (cases "a = []")
    case True
    then show ?thesis by (simp add: match_here_double_spaces)
  next
    case False
    let ?t = "length (takeWhile (\<lambda>x. x = 0x20) a)"
    have tw: "takeWhile (\<lambda>x. x = 0x20) (a @ nl # b) = takeWhile (\<lambda>x. x = 0x20) a"
      by (rule takeWhile_space_append)
    have tle: "?t \<le> length a" by (rule length_takeWhile_le)
    have ne: "a @ nl # b \<noteq> []" by simp
    show ?thesis
    proof (cases "2 \<le> ?t")
      case True
      have "0 < length a" using False by simp
      with True have "length a - ?t < length a" by arith
      then have "length (drop ?t a) < length a" by simp
      with 1 have "length (matches_from double_spaces (k + ?t) (drop ?t a))
          \<le> length (matches_from double_spaces (k' + ?t) (drop ?t a @ nl # b))"
        by blast
      moreover have "drop ?t (a @ nl # b) = drop ?t a @ nl # b" using tle by simp
      ultimately show ?thesis
        unfolding matches_from_double_spaces[OF False] matches_from_double_spaces[OF ne] tw
        using True by simp
    next
      case F2: False
      have "length (tl a) < length a" using False by simp
      with 1 have "length (matches_from double_spaces (Suc k) (tl a))
          \<le> length (matches_from double_spaces (Suc k') (tl a @ nl # b))"
        by blast
      moreover have "tl (a @ nl # b) = tl a @ nl # b" using False by simp
      ultimately show ?thesis
        unfolding matches_from_double_spaces[OF False] matches_from_double_spaces[OF ne] tw
        using F2 by simp
    qed
  qed
qed

lemma fold_length_sum: "fold (\<lambda>b a. a + length b) xs n = n + sum_list (map length xs)"
  by (induction xs arbitrary: n) auto

lemma score_analyzeReadability:
  "score (analyzeReadability up D) =
     max 0 (100 - (if manyLongLines (js_split nl D) then 20 else 0)
                - (if length (headings up (js_split nl D)) = 0 \<and> length D > 3000 then 15 else 0)
                - (if fewBreaks (js_split nl D) then 15 else 0)
                - (if manySpaces D then 10 else 0))"
  by (simp add: analyzeReadability_def Let_def penalty_def)

lemma nonEmptyLines_append: "nonEmptyLines (xs @ ys) = nonEmptyLines xs @ nonEmptyLines ys"
  by (simp add: nonEmptyLines_def)

lemma longLines_append: "longLines (xs @ ys) = longLines xs @ longLines ys"
  by (simp add: longLines_def nonEmptyLines_append)

lemma longLines_all_long:
  "\<forall>l\<in>set ls. 200 < length l \<Longrightarrow> longLines ls = nonEmptyLines ls"
  by (auto simp: longLines_def nonEmptyLines_def intro: filter_cong)

lemma manyLongLines_append:
  assumes "\<forall>l\<in>set ls. 200 < length l" "manyLongLines xs"
  shows "manyLongLines (xs @ ls)"
proof -
  let ?k = "length (nonEmptyLines ls)"
  have "(of_nat (length (longLines xs)) :: rat) > of_nat (length (nonEmptyLines xs)) * (3 / 10)"
    using assms(2) by (simp add: manyLongLines_def)
  then have "(of_nat (length (longLines xs) + ?k) :: rat)
      > of_nat (length (nonEmptyLines xs) + ?k) * (3 / 10)"
    by (simp add: algebra_simps)
  then show ?thesis
    using assms(1) by (simp add: manyLongLines_def longLines_append nonEmptyLines_append longLines_all_long)
qed

lemma sum_length_long:
  "\<forall>l\<in>set ls. 200 < length l \<Longrightarrow> 150 * length ls \<le> sum_list (map length ls)"
  by (induction ls) auto

lemma fewBreaks_append:
  assumes "\<forall>l\<in>set ls. 200 < length l" "fewBreaks xs"
  shows "fewBreaks (xs @ ls)"
proof -
  let ?N = "length (nonEmptyLines xs)" and ?S = "sum_list (map length (nonEmptyLines xs))"
  let ?k = "length (nonEmptyLines ls)" and ?T = "sum_list (map length (nonEmptyLines ls))"
  from assms(2) have N: "?N \<noteq> 0" and avg: "(of_nat ?S :: rat) / of_nat ?N > 150"
    by (auto simp: fewBreaks_def avgLineLength_def Let_def fold_length_sum split: if_splits)
  from avg N have "(150 :: rat) * of_nat ?N < of_nat ?S"
    by (simp add: pos_less_divide_eq)
  then have S: "150 * ?N < ?S"
    by (metis of_nat_less_iff of_nat_mult of_nat_numeral)
  have "\<forall>l\<in>set (nonEmptyLines ls). 200 < length l"
    using assms(1) by (simp add: nonEmptyLines_def)
  then have T: "150 * ?k \<le> ?T" by (rule sum_length_long)
  from S T have "150 * (?N + ?k) < ?S + ?T" by simp
  then have "(150 :: rat) * of_nat (?N + ?k) < of_nat (?S + ?T)"
    by (metis of_nat_less_iff of_nat_mult of_nat_numeral)
  moreover have "0 < ?N + ?k" using N by simp
  then have pos: "0 < (of_nat (?N + ?k) :: rat)" by (simp only: of_nat_0_less_iff)
  ultimately have "(of_nat (?S + ?T) :: rat) / of_nat (?N + ?k) > 150"
    by (simp only: pos_less_divide_eq[OF pos])
  with N show ?thesis
    by (simp add: fewBreaks_def avgLineLength_def Let_def fold_length_sum nonEmptyLines_append)
qed

lemma headings_append: "headings up (xs @ ys) = headings up xs @ headings up ys"
  by (simp add: headings_def)

lemma manySpaces_append:
  "manySpaces D \<Longrightarrow> manySpaces (D @ nl # E)"
  using double_spaces_mono[of 0 D 0 E]
  by (auto simp: manySpaces_def match_all_def Let_def)

text \<open>
  C8: when at least one line of the document is detected as a heading, appending 25
  lines of more than 200 code units each (behind a newline) never gives a higher
  readability score.
\<close>

theorem analyzeReadability_append_long_lines:
  assumes "length ls = 25"
    and "\<forall>l\<in>set ls. 200 < length l \<and> nl \<notin> set l"
    and "headings toUpperCase (js_split nl D) \<noteq> []"
  shows "score (analyzeReadability toUpperCase (D @ nl # js_join nl ls))
       \<le> score (analyzeReadability toUpperCase D)"
proof -
  have ne: "ls \<noteq> []" using assms(1) by auto
  have long: "\<forall>l\<in>set ls. 200 < length l" and nonl: "\<forall>l\<in>set ls. nl \<notin> set l"
    using assms(2) by auto
  have sp: "js_split nl (D @ nl # js_join nl ls) = js_split nl D @ ls"
    using ne nonl by (rule js_split_append_lines)
  have h: "headings toUpperCase (js_split nl D @ ls) \<noteq> []"
    using assms(3) by (simp add: headings_append)
  show ?thesis
    unfolding score_analyzeReadability sp
    using assms(3) h manyLongLines_append[OF long, of "js_split nl D"]
      fewBreaks_append[OF long, of "js_split nl D"] manySpaces_append[of D "js_join nl ls"]
    by auto
qed

lemma ascii_upper_fixed: "ascii_toUpperCase s = s \<Longrightarrow> \<not> list_ex is_lower s"
  by (induction s) (auto simp: ascii_toUpperCase_def ascii_upper_def is_lower_def in_range_def)

subsection \<open>Heading classifier\<close>

lemma exec_from_Sym: "(exec_from (Sym P) k s \<noteq> None) = list_ex P s"
  by (induction s arbitrary: k) (auto simp: match_here_def)

lemma rx_test_Sym: "rx_test (Sym P) s = list_ex P s"
  unfolding rx_test_def rx_exec_def by (rule exec_from_Sym)

text \<open>
  C7 (as amended): a line whose trimmed form has 2 to 50 code units, is its own upper-case
  form, contains a letter of the class the code tests, \<^verbatim>\<open>/[a-zA-Z\uAC00-\uD7A3]/\<close> (an
  ASCII letter or a Hangul syllable), does not end in one of
  \<^verbatim>\<open>. , ;\<close> or their full-width forms, and matches neither the markdown rule nor
  any of \<open>CHAPTER_PATTERNS\<close>, is a heading of level 2 whose title is the trimmed line.
  Of the runtime's \<^verbatim>\<open>toUpperCase\<close> the proof uses that a string it leaves
  unchanged has no letter a-z. The witness is the line \<^verbatim>\<open>CHAPTER ONE\<close>.
\<close>

theorem isChapterHeading_heuristic:
  assumes "2 \<le> length (trim line)" and "length (trim line) \<le> 50"
    and "toUpperCase (trim line) = trim line"
    and "rx_test has_letters (trim line)"
    and "\<not> rx_test end_punct (trim line)"
    and "rx_exec md_heading (trim line) = None"
    and "first_pattern CHAPTER_PATTERNS (trim line) = None"
    and "\<And>s. toUpperCase s = s \<Longrightarrow> \<not> list_ex is_lower s"
  shows "isChapterHeading toUpperCase line = \<lparr>isHeading = True, title = trim line, level = 2\<rparr>"
proof -
  have ne: "trim line \<noteq> []" using assms(1) by auto
  have "\<not> list_ex is_lower (trim line)" using assms(3,8) by blast
  moreover have "list_ex (\<lambda>c. is_lower c \<or> is_upper c \<or> is_hangul c) (trim line)"
    using assms(4) by (simp add: has_letters_def rx_test_Sym)
  ultimately have "list_ex (\<lambda>c. is_upper c \<or> is_hangul c) (trim line)"
    by (auto simp: list_ex_iff)
  then have caps: "rx_test has_caps (trim line)"
    by (simp add: has_caps_def rx_test_Sym)
  show ?thesis
    using ne caps assms(1-7) by (simp add: isChapterHeading_def Let_def)
qed

lemma chapter_one_md: "rx_exec md_heading (js ''CHAPTER ONE'') = None"
  by code_simp

lemma chapter_one_patterns: "first_pattern CHAPTER_PATTERNS (js ''CHAPTER ONE'') = None"
  by code_simp

lemma chapter_one_trim: "trim (js ''CHAPTER ONE'') = js ''CHAPTER ONE''"
  by code_simp

theorem isChapterHeading_heuristic_witness:
  "isChapterHeading ascii_toUpperCase (js ''CHAPTER ONE'')
     = \<lparr>isHeading = True, title = js ''CHAPTER ONE'', level = 2\<rparr>
   \<and> length (js ''CHAPTER ONE'') = 11
   \<and> rx_exec md_heading (js ''CHAPTER ONE'') = None
   \<and> first_pattern CHAPTER_PATTERNS (js ''CHAPTER ONE'') = None"
proof -
  have 1: "2 \<le> length (trim (js ''CHAPTER ONE''))" "length (trim (js ''CHAPTER ONE'')) \<le> 50"
    unfolding chapter_one_trim by (simp_all add: js_def)
  have 3: "ascii_toUpperCase (trim (js ''CHAPTER ONE'')) = trim (js ''CHAPTER ONE'')"
    by code_simp
  have 4: "rx_test has_letters (trim (js ''CHAPTER ONE''))"
    by code_simp
  have 5: "\<not> rx_test end_punct (trim (js ''CHAPTER ONE''))"
    by code_simp
  have 6: "rx_exec md_heading (trim (js ''CHAPTER ONE'')) = None"
    unfolding chapter_one_trim by (rule chapter_one_md)
  have 7: "first_pattern CHAPTER_PATTERNS (trim (js ''CHAPTER ONE'')) = None"
    unfolding chapter_one_trim by (rule chapter_one_patterns)
  from isChapterHeading_heuristic[of "js ''CHAPTER ONE''" ascii_toUpperCase,
      OF 1 3 4 5 6 7 ascii_upper_fixed]
  show ?thesis
    by (simp add: chapter_one_trim chapter_one_md chapter_one_patterns) (simp add: js_def)
qed

text \<open>
  C7 (as stated) fails: "a letter" of another script does not count. The line of the five
  Cyrillic capitals U+0413 U+041B U+0410 U+0412 U+0410 is trimmed, has 5 code units, is
  its own upper-case form, ends in no punctuation and matches no earlier rule, and is
  not a heading: the test \<^verbatim>\<open>/[A-Z\uAC00-\uD7A3]/\<close> fails on it.
\<close>

theorem isChapterHeading_cyrillic_capitals:
  "isChapterHeading ascii_toUpperCase [0x0413, 0x041B, 0x0410, 0x0412, 0x0410]
     = \<lparr>isHeading = False, title = [], level = 0\<rparr>
   \<and> trim [0x0413, 0x041B, 0x0410, 0x0412, 0x0410] = [0x0413, 0x041B, 0x0410, 0x0412, 0x0410]
   \<and> length [0x0413 :: jschar, 0x041B, 0x0410, 0x0412, 0x0410] = 5
   \<and> ascii_toUpperCase [0x0413, 0x041B, 0x0410, 0x0412, 0x0410]
       = [0x0413, 0x041B, 0x0410, 0x0412, 0x0410]
   \<and> rx_test end_punct [0x0413, 0x041B, 0x0410, 0x0412, 0x0410] = False
   \<and> rx_exec md_heading [0x0413, 0x041B, 0x0410, 0x0412, 0x0410] = None
   \<and> first_pattern CHAPTER_PATTERNS [0x0413, 0x041B, 0x0410, 0x0412, 0x0410] = None"
  by code_simp

theorem analyzeReadability_append_long_lines_witness:
  "score (analyzeReadability ascii_toUpperCase
            (js ''# T'' @ nl # js_join nl (replicate 25 (replicate 201 0x61))))
   \<le> score (analyzeReadability ascii_toUpperCase (js ''# T''))"
proof -
  have h: "headings ascii_toUpperCase (js_split nl (js ''# T'')) \<noteq> []"
    by code_simp
  have l: "\<forall>l\<in>set (replicate 25 (replicate 201 (0x61::jschar))). 200 < length l \<and> nl \<notin> set l"
    by (simp add: nl_def)
  from analyzeReadability_append_long_lines[OF _ l h] show ?thesis by simp
qed

subsection \<open>Table of contents\<close>

lemma digits_value_decimal: "digits_value (decimal n) = n"
proof (induction n rule: decimal.induct)
  case (1 n)
  show ?case
  proof (cases "n < 10")
    case True
    then have "unat (of_nat n :: jschar) = n"
      by (simp add: unat_of_nat)
    with True show ?thesis
      by (subst decimal.simps) (simp add: digits_value_def)
  next
    case False
    have "n mod 10 < 10" by simp
    then have "unat (of_nat (n mod 10) :: jschar) = n mod 10"
      by (simp add: unat_of_nat)
    with False 1 show ?thesis
      by (subst decimal.simps) (simp add: digits_value_def)
  qed
qed

lemma decimal_inj: "decimal n = decimal m \<Longrightarrow> n = m"
  by (metis digits_value_decimal)

lemma toc_fold_ids:
  assumes "h = length toc"
    and "\<forall>i<length toc. toc_id (toc ! i) = generateHeadingId low (toc_title (toc ! i)) i"
  shows "\<forall>i<length (fst (fold (toc_step low) ps (toc, h))).
           toc_id (fst (fold (toc_step low) ps (toc, h)) ! i)
             = generateHeadingId low (toc_title (fst (fold (toc_step low) ps (toc, h)) ! i)) i"
  using assms
proof (induction ps arbitrary: toc h)
  case Nil
  then show ?case by simp
next
  case (Cons p ps)
  obtain index' line where p: "p = (index', line)" by (cases p)
  show ?case
  proof (cases "rx_exec md_heading line")
    case None
    with p have "toc_step low p (toc, h) = (toc, h)" by (simp add: toc_step_def)
    with Cons show ?thesis by simp
  next
    case (Some r)
    obtain m headingMatch where r: "r = (m, headingMatch)" by (cases r)
    let ?e = "\<lparr>toc_id = generateHeadingId low (trim (group headingMatch 2)) h,
               toc_title = trim (group headingMatch 2),
               toc_level = length (group headingMatch 1), position = int index' + 1\<rparr>"
    from Some p r have step: "toc_step low p (toc, h) = (toc @ [?e], h + 1)"
      by (simp add: toc_step_def Let_def)
    have "\<forall>i<length (toc @ [?e]).
        toc_id ((toc @ [?e]) ! i) = generateHeadingId low (toc_title ((toc @ [?e]) ! i)) i"
      using Cons.prems by (auto simp: nth_append less_Suc_eq)
    with Cons.IH[of "h + 1" "toc @ [?e]"] Cons.prems(1) step show ?thesis by simp
  qed
qed

text \<open>
  C2 (as amended): the id of the i-th entry (from 0) is \<^verbatim>\<open>heading-\<close> followed by the
  slug of its title when the slug is not empty, and by the decimal index \<open>i\<close> otherwise.
  Two entries have different ids when both slugs are empty, or when both are non-empty
  and differ.
\<close>

theorem extractTableOfContents_ids:
  "(\<forall>i<length (extractTableOfContents toLowerCase md).
      toc_id (extractTableOfContents toLowerCase md ! i) =
        js ''heading-'' @
          (if heading_slug toLowerCase (toc_title (extractTableOfContents toLowerCase md ! i)) \<noteq> []
           then heading_slug toLowerCase (toc_title (extractTableOfContents toLowerCase md ! i))
           else decimal i))
   \<and> (\<forall>i<length (extractTableOfContents toLowerCase md).
       \<forall>j<length (extractTableOfContents toLowerCase md).
         i \<noteq> j \<longrightarrow>
         (heading_slug toLowerCase (toc_title (extractTableOfContents toLowerCase md ! i)) = []
            \<and> heading_slug toLowerCase (toc_title (extractTableOfContents toLowerCase md ! j)) = []
          \<or> heading_slug toLowerCase (toc_title (extractTableOfContents toLowerCase md ! i)) \<noteq> []
            \<and> heading_slug toLowerCase (toc_title (extractTableOfContents toLowerCase md ! j)) \<noteq> []
            \<and> heading_slug toLowerCase (toc_title (extractTableOfContents toLowerCase md ! i))
               \<noteq> heading_slug toLowerCase (toc_title (extractTableOfContents toLowerCase md ! j))) \<longrightarrow>
         toc_id (extractTableOfContents toLowerCase md ! i)
           \<noteq> toc_id (extractTableOfContents toLowerCase md ! j))"
proof -
  let ?toc = "extractTableOfContents toLowerCase md"
  have ids: "\<forall>i<length ?toc. toc_id (?toc ! i) = generateHeadingId toLowerCase (toc_title (?toc ! i)) i"
    unfolding extractTableOfContents_def
    by (rule toc_fold_ids) simp_all
  show ?thesis
  proof (intro conjI allI impI)
    fix i assume "i < length ?toc"
    with ids show "toc_id (?toc ! i) = js ''heading-'' @
          (if heading_slug toLowerCase (toc_title (?toc ! i)) \<noteq> []
           then heading_slug toLowerCase (toc_title (?toc ! i)) else decimal i)"
      by (simp add: generateHeadingId_def Let_def)
  next
    fix i j
    assume "i < length ?toc" "j < length ?toc" "i \<noteq> j"
      and "heading_slug toLowerCase (toc_title (?toc ! i)) = []
            \<and> heading_slug toLowerCase (toc_title (?toc ! j)) = []
          \<or> heading_slug toLowerCase (toc_title (?toc ! i)) \<noteq> []
            \<and> heading_slug toLowerCase (toc_title (?toc ! j)) \<noteq> []
            \<and> heading_slug toLowerCase (toc_title (?toc ! i))
               \<noteq> heading_slug toLowerCase (toc_title (?toc ! j))"
    with ids show "toc_id (?toc ! i) \<noteq> toc_id (?toc ! j)"
      by (auto simp: generateHeadingId_def Let_def dest: decimal_inj)
  qed
qed

text \<open>
  C2 (as stated) fails: two headings with the same title get the same id, the index being
  used only in place of an empty slug.
\<close>

theorem extractTableOfContents_same_title:
  "map toc_id (extractTableOfContents ascii_toLowerCase (js ''# Intro'' @ nl # js ''text'' @ nl # js ''## Intro''))
   = [js ''heading-intro'', js ''heading-intro'']"
  by code_simp

theorem extractTableOfContents_ids_witness:
  "toc_id (extractTableOfContents ascii_toLowerCase (js ''# A'' @ nl # js ''# !'' @ nl # js ''# ?'') ! 1)
     = js ''heading-1''
   \<and> toc_id (extractTableOfContents ascii_toLowerCase (js ''# A'' @ nl # js ''# !'' @ nl # js ''# ?'') ! 1)
     \<noteq> toc_id (extractTableOfContents ascii_toLowerCase (js ''# A'' @ nl # js ''# !'' @ nl # js ''# ?'') ! 2)"
proof -
  let ?md = "js ''# A'' @ nl # js ''# !'' @ nl # js ''# ?''"
  have len: "length (extractTableOfContents ascii_toLowerCase ?md) = 3"
    by code_simp
  have t1: "heading_slug ascii_toLowerCase (toc_title (extractTableOfContents ascii_toLowerCase ?md ! 1)) = []"
    by code_simp
  have t2: "heading_slug ascii_toLowerCase (toc_title (extractTableOfContents ascii_toLowerCase ?md ! 2)) = []"
    by code_simp
  have d: "decimal 1 = js ''1''"
    by (subst decimal.simps) (simp add: js_def)
  from extractTableOfContents_ids[of ascii_toLowerCase ?md] len t1 t2 d
  show ?thesis by (auto simp: js_def)
qed

subsection \<open>Chapters for export\<close>

lemma chapter_fold_no_heading:
  assumes "\<forall>l\<in>set ls. rx_exec md_heading12 l = None"
  shows "fold chapter_step ls ([], Some c) = ([], Some (c\<lparr>open_content := open_content c @ ls\<rparr>))"
  using assms
  by (induction ls arbitrary: c) (simp_all add: chapter_step_def)

lemma splitIntoChapters_no_heading:
  assumes "\<forall>l\<in>set (js_split nl md). rx_exec md_heading12 l = None"
  shows "splitIntoChapters md =
     (if trim md = [] then []
      else [\<lparr>ch_title = js ''Introduction'', ch_content = trim md, ch_level = 1\<rparr>])"
proof -
  obtain l ls where sp: "js_split nl md = l # ls"
    by (cases "js_split nl md") auto
  have first: "chapter_step l ([], None) =
      ([], Some \<lparr>open_title = js ''Introduction'', open_content = [l], open_level = 1\<rparr>)"
    using assms sp by (simp add: chapter_step_def)
  have rest: "\<forall>l\<in>set ls. rx_exec md_heading12 l = None" using assms sp by simp
  have "js_join nl (l # ls) = md" using sp js_join_split[of nl md] by simp
  then show ?thesis
    by (simp add: splitIntoChapters_def sp first chapter_fold_no_heading[OF rest] close_chapter_def)
qed

lemma chapter_step_levels:
  assumes "chapter_step line (chs, cur) = (chs', cur')"
    and "\<forall>c\<in>set chs. ch_level c \<le> 2" and "\<forall>c. cur = Some c \<longrightarrow> open_level c \<le> 2"
  shows "(\<forall>c\<in>set chs'. ch_level c \<le> 2) \<and> (\<forall>c. cur' = Some c \<longrightarrow> open_level c \<le> 2)"
  using assms
  by (auto simp: chapter_step_def close_chapter_def split: option.splits if_splits prod.splits)

lemma chapter_fold_levels:
  assumes "fold chapter_step ls (chs, cur) = (chs', cur')"
    and "\<forall>c\<in>set chs. ch_level c \<le> 2" and "\<forall>c. cur = Some c \<longrightarrow> open_level c \<le> 2"
  shows "(\<forall>c\<in>set chs'. ch_level c \<le> 2) \<and> (\<forall>c. cur' = Some c \<longrightarrow> open_level c \<le> 2)"
  using assms
proof (induction ls arbitrary: chs cur)
  case Nil
  then show ?case by simp
next
  case (Cons l ls)
  obtain chs1 cur1 where s: "chapter_step l (chs, cur) = (chs1, cur1)"
    by (cases "chapter_step l (chs, cur)")
  from chapter_step_levels[OF s Cons.prems(2,3)] Cons.IH[of chs1 cur1] Cons.prems(1) s
  show ?case by simp
qed

lemma splitIntoChapters_levels:
  "c \<in> set (splitIntoChapters md) \<Longrightarrow> ch_level c \<le> 2 \<and> ch_content c \<noteq> []"
proof -
  assume c: "c \<in> set (splitIntoChapters md)"
  obtain chs cur where f: "fold chapter_step (js_split nl md) ([], None) = (chs, cur)"
    by (cases "fold chapter_step (js_split nl md) ([], None)")
  from chapter_fold_levels[OF f] have
    "(\<forall>c\<in>set chs. ch_level c \<le> 2) \<and> (\<forall>c. cur = Some c \<longrightarrow> open_level c \<le> 2)" by simp
  with c f show ?thesis
    by (auto simp: splitIntoChapters_def close_chapter_def split: option.splits)
qed




subsection \<open>Merging chunk results\<close>

lemma count_up_keys:
  "map fst (count_up k es) = (if k \<in> fst ` set es then map fst es else map fst es @ [k])"
  by (induction es) (auto split: if_splits)

lemma count_up_lookup:
  "distinct (map fst es) \<Longrightarrow>
   map_of (count_up k es) k' =
     (if k' = k then Some (case map_of es k of None \<Rightarrow> 1 | Some n \<Rightarrow> n + 1) else map_of es k')"
  by (induction es) (auto split: if_splits)

lemma first_index_snoc:
  "first_index (xs @ [x]) y = (if y \<in> set xs then first_index xs y else
     if y = x then length xs else Suc (length xs))"
  by (induction xs) (auto simp: first_index_def)

lemma first_index_less: "y \<in> set xs \<Longrightarrow> first_index xs y < length xs"
  by (induction xs) (auto simp: first_index_def)

lemma contentTypeCounts_snoc: "contentTypeCounts (ts @ [t]) = count_up t (contentTypeCounts ts)"
  by (simp add: contentTypeCounts_def)

lemma contentTypeCounts_props:
  "distinct (map fst (contentTypeCounts ts))
   \<and> fst ` set (contentTypeCounts ts) = set ts
   \<and> (\<forall>k\<in>set ts. map_of (contentTypeCounts ts) k = Some (count_list ts k))
   \<and> sorted_wrt (\<lambda>a b. first_index ts a < first_index ts b) (map fst (contentTypeCounts ts))"
proof (induction ts rule: rev_induct)
  case Nil
  then show ?case by (simp add: contentTypeCounts_def)
next
  case (snoc t ts)
  let ?C = "contentTypeCounts ts"
  from snoc have d: "distinct (map fst ?C)" and s: "fst ` set ?C = set ts"
    and m: "\<forall>k\<in>set ts. map_of ?C k = Some (count_list ts k)"
    and o: "sorted_wrt (\<lambda>a b. first_index ts a < first_index ts b) (map fst ?C)"
    by auto
  have keys: "map fst (count_up t ?C) = (if t \<in> set ts then map fst ?C else map fst ?C @ [t])"
    using s by (simp add: count_up_keys)
  have 1: "distinct (map fst (count_up t ?C))"
    using d s keys by (auto simp: image_iff)
  have 2: "fst ` set (count_up t ?C) = set (ts @ [t])"
  proof -
    have "set (map fst (count_up t ?C)) = set (ts @ [t])"
      unfolding keys using s by auto
    then show ?thesis by simp
  qed
  have none: "t \<notin> set ts \<Longrightarrow> map_of ?C t = None"
    using s by (metis map_of_eq_None_iff)
  have 3: "\<forall>k\<in>set (ts @ [t]). map_of (count_up t ?C) k = Some (count_list (ts @ [t]) k)"
  proof
    fix k assume k: "k \<in> set (ts @ [t])"
    show "map_of (count_up t ?C) k = Some (count_list (ts @ [t]) k)"
    proof (cases "k = t")
      case False
      with k m show ?thesis by (simp add: count_up_lookup[OF d])
    next
      case True
      show ?thesis
      proof (cases "t \<in> set ts")
        case in_ts: True
        with m have "map_of ?C t = Some (count_list ts t)" by simp
        with True show ?thesis by (simp add: count_up_lookup[OF d])
      next
        case False
        then have "count_list ts t = 0" by (simp add: count_list_0_iff)
        with True none[OF False] show ?thesis by (simp add: count_up_lookup[OF d])
      qed
    qed
  qed
  have 4: "sorted_wrt (\<lambda>a b. first_index (ts @ [t]) a < first_index (ts @ [t]) b)
             (map fst (count_up t ?C))"
  proof -
    have keys_in: "set (map fst ?C) = set ts" using s by simp
    have old: "sorted_wrt (\<lambda>a b. first_index (ts @ [t]) a < first_index (ts @ [t]) b) (map fst ?C)"
    proof (rule sorted_wrt_mono_rel[OF _ o])
      fix a b assume "a \<in> set (map fst ?C)" "b \<in> set (map fst ?C)"
        and "first_index ts a < first_index ts b"
      then show "first_index (ts @ [t]) a < first_index (ts @ [t]) b"
        unfolding keys_in by (simp add: first_index_snoc)
    qed
    show ?thesis
    proof (cases "t \<in> set ts")
      case True
      with old keys show ?thesis by simp
    next
      case False
      have "\<forall>a\<in>set (map fst ?C). first_index (ts @ [t]) a < first_index (ts @ [t]) t"
        unfolding keys_in using False by (simp add: first_index_snoc first_index_less)
      with old keys False show ?thesis
        by (simp add: sorted_wrt_append)
    qed
  qed
  from 1 2 3 4 show ?case by (simp add: contentTypeCounts_snoc)
qed

lemma hd_sort_key:
  assumes "xs \<noteq> []"
  shows "hd (sort_key f xs) \<in> set xs
     \<and> (\<forall>y\<in>set xs. f (hd (sort_key f xs)) \<le> f y)
     \<and> hd (filter (\<lambda>y. f y = f (hd (sort_key f xs))) xs) = hd (sort_key f xs)"
proof -
  let ?s = "sort_key f xs"
  have ne: "?s \<noteq> []"
  proof
    assume e: "?s = []"
    have "length xs = length ?s" by (simp only: length_sort)
    also have "\<dots> = 0" by (simp only: e list.size)
    finally show False using assms by simp
  qed
  then obtain m r where s: "?s = m # r" by (cases ?s) auto
  have "m \<in> set ?s" using s by simp
  then have in_xs: "m \<in> set xs" by simp
  have "sorted (map f ?s)" by simp
  with s have "\<forall>y\<in>set ?s. f m \<le> f y" by auto
  then have le: "\<forall>y\<in>set xs. f m \<le> f y" by simp
  have "filter (\<lambda>y. f y = f m) ?s = filter (\<lambda>y. f y = f m) xs"
    by (rule sort_key_stable)
  with s have "filter (\<lambda>y. f y = f m) xs = m # filter (\<lambda>y. f y = f m) r" by simp
  then have "hd (filter (\<lambda>y. f y = f m) xs) = m" by simp
  with in_xs le s show ?thesis by simp
qed

lemma sorted_wrt_hd_filter:
  assumes "sorted_wrt R xs" "y \<in> set xs" "P y"
  shows "hd (filter P xs) = y \<or> R (hd (filter P xs)) y"
proof -
  have sw: "sorted_wrt R (filter P xs)" using assms(1) by (rule sorted_wrt_filter)
  have "y \<in> set (filter P xs)" using assms(2,3) by simp
  then obtain m r where f: "filter P xs = m # r" and "y = m \<or> y \<in> set r"
    by (cases "filter P xs") auto
  with sw show ?thesis by auto
qed

lemma majority_vote:
  assumes "ts \<noteq> []"
  shows "majority ts \<in> set ts
    \<and> (\<forall>c. count_list ts c \<le> count_list ts (majority ts))
    \<and> (\<forall>c. count_list ts c = count_list ts (majority ts) \<longrightarrow>
           first_index ts (majority ts) \<le> first_index ts c)"
proof -
  let ?C = "contentTypeCounts ts"
  let ?g = "\<lambda>e :: ContentType \<times> nat. int (snd e) * (- 1)"
  let ?m = "hd (sort_key ?g ?C)"
  note props = contentTypeCounts_props[of ts]
  from props have d: "distinct (map fst ?C)" and s: "fst ` set ?C = set ts"
    and lk: "\<forall>k\<in>set ts. map_of ?C k = Some (count_list ts k)"
    and o: "sorted_wrt (\<lambda>a b. first_index ts a < first_index ts b) (map fst ?C)"
    by auto
  have Cne: "?C \<noteq> []" using s assms by auto
  then have sne: "sort_key ?g ?C \<noteq> []"
    by (metis set_sort set_empty)
  then have maj: "majority ts = fst ?m"
    by (cases "sort_key ?g ?C") (simp_all add: majority_def sort_by_key_def)
  from hd_sort_key[OF Cne, of ?g] have m_in: "?m \<in> set ?C"
    and m_min: "\<forall>y\<in>set ?C. ?g ?m \<le> ?g y"
    and m_first: "hd (filter (\<lambda>y. ?g y = ?g ?m) ?C) = ?m"
    by auto
  have entries: "\<And>c. c \<in> set ts \<Longrightarrow> (c, count_list ts c) \<in> set ?C"
    using lk by (auto dest: map_of_SomeD)
  have w_in: "fst ?m \<in> set ts" using m_in s by force
  have "(fst ?m, count_list ts (fst ?m)) \<in> set ?C" using entries[OF w_in] .
  with m_in d have snd_m: "snd ?m = count_list ts (fst ?m)"
    by (metis eq_key_imp_eq_value prod.collapse)
  have le: "count_list ts c \<le> count_list ts (fst ?m)" for c
  proof (cases "c \<in> set ts")
    case True
    from m_min entries[OF True] have "?g ?m \<le> ?g (c, count_list ts c)" by blast
    with snd_m show ?thesis by simp
  next
    case False
    then show ?thesis by (simp add: count_list_0_iff)
  qed
  have tie: "first_index ts (fst ?m) \<le> first_index ts c"
    if eq: "count_list ts c = count_list ts (fst ?m)" for c
  proof -
    have "count_list ts (fst ?m) \<noteq> 0" using w_in by (simp add: count_list_0_iff)
    with eq have c_in: "c \<in> set ts" by (metis count_list_0_iff)
    let ?y = "(c, count_list ts c)"
    have y_in: "?y \<in> set ?C" using entries[OF c_in] .
    have gy: "?g ?y = ?g ?m" using eq snd_m by simp
    have o': "sorted_wrt (\<lambda>a b. first_index ts (fst a) < first_index ts (fst b)) ?C"
      using o by (simp add: sorted_wrt_map)
    from sorted_wrt_hd_filter[OF o' y_in, of "\<lambda>y. ?g y = ?g ?m"] gy m_first
    have "?m = ?y \<or> first_index ts (fst ?m) < first_index ts (fst ?y)" by simp
    then show ?thesis by auto
  qed
  from maj w_in le tie show ?thesis by simp
qed

lemma majority_Nil: "majority [] = NonFiction"
  by (simp add: majority_def contentTypeCounts_def sort_by_key_def)

text \<open>
  C4: the merged table of contents is the concatenation of the chunks' entries sorted
  ascending by \<open>position\<close>, the merged image points are the concatenation of the
  chunks' points sorted ascending by \<open>lineNumber\<close>, and the content type of a
  non-empty list of results is one that occurs most often, and among those the one that
  occurs first in chunk order (of an empty list it is \<^verbatim>\<open>'non-fiction'\<close>).
\<close>

theorem mergeChunkResults_sorted_and_vote:
  "sorted (map position (tableOfContents (mergeChunkResults rs n)))
   \<and> mset (tableOfContents (mergeChunkResults rs n)) = mset (concat (map tableOfContents rs))
   \<and> sorted (map (\<lambda>p. lineNumber (point_position p)) (imagePoints (mergeChunkResults rs n)))
   \<and> mset (imagePoints (mergeChunkResults rs n)) = mset (concat (map imagePoints rs))
   \<and> (rs \<noteq> [] \<longrightarrow>
        contentType (mergeChunkResults rs n) \<in> set (map contentType rs)
        \<and> (\<forall>c. count_list (map contentType rs) c
                \<le> count_list (map contentType rs) (contentType (mergeChunkResults rs n)))
        \<and> (\<forall>c. count_list (map contentType rs) c
                  = count_list (map contentType rs) (contentType (mergeChunkResults rs n)) \<longrightarrow>
                first_index (map contentType rs) (contentType (mergeChunkResults rs n))
                  \<le> first_index (map contentType rs) c))
   \<and> (rs = [] \<longrightarrow> contentType (mergeChunkResults rs n) = NonFiction)"
proof -
  have vote: "rs \<noteq> [] \<Longrightarrow>
      majority (map contentType rs) \<in> set (map contentType rs)
      \<and> (\<forall>c. count_list (map contentType rs) c
              \<le> count_list (map contentType rs) (majority (map contentType rs)))
      \<and> (\<forall>c. count_list (map contentType rs) c
              = count_list (map contentType rs) (majority (map contentType rs)) \<longrightarrow>
            first_index (map contentType rs) (majority (map contentType rs))
              \<le> first_index (map contentType rs) c)"
    by (rule majority_vote) simp
  show ?thesis
    using vote by (simp add: mergeChunkResults_def Let_def sort_by_key_def majority_Nil)
qed

theorem mergeChunkResults_sorted_and_vote_witness:
  "contentType (mergeChunkResults
      [\<lparr>tableOfContents = [\<lparr>toc_id = js ''a'', toc_title = js ''A'', toc_level = 1, position = 9\<rparr>],
        imagePoints = [], contentType = Fiction\<rparr>,
       \<lparr>tableOfContents = [\<lparr>toc_id = js ''b'', toc_title = js ''B'', toc_level = 2, position = 3\<rparr>],
        imagePoints = [], contentType = Technical\<rparr>] 500) = Fiction
   \<and> map position (tableOfContents (mergeChunkResults
      [\<lparr>tableOfContents = [\<lparr>toc_id = js ''a'', toc_title = js ''A'', toc_level = 1, position = 9\<rparr>],
        imagePoints = [], contentType = Fiction\<rparr>,
       \<lparr>tableOfContents = [\<lparr>toc_id = js ''b'', toc_title = js ''B'', toc_level = 2, position = 3\<rparr>],
        imagePoints = [], contentType = Technical\<rparr>] 500)) = [3, 9]"
proof -
  let ?rs = "[\<lparr>tableOfContents = [\<lparr>toc_id = js ''a'', toc_title = js ''A'', toc_level = 1, position = 9\<rparr>],
        imagePoints = [], contentType = Fiction\<rparr>,
       \<lparr>tableOfContents = [\<lparr>toc_id = js ''b'', toc_title = js ''B'', toc_level = 2, position = 3\<rparr>],
        imagePoints = [], contentType = Technical\<rparr>]"
  let ?w = "contentType (mergeChunkResults ?rs 500)"
  from mergeChunkResults_sorted_and_vote[of ?rs 500]
  have mem: "?w = Fiction \<or> ?w = Technical"
    and tie: "count_list [Fiction, Technical] Fiction = count_list [Fiction, Technical] ?w \<longrightarrow>
              first_index [Fiction, Technical] ?w \<le> first_index [Fiction, Technical] Fiction"
    by auto
  from mem tie have 1: "?w = Fiction"
    by (auto simp: first_index_def)
  have 2: "map position (tableOfContents (mergeChunkResults ?rs 500)) = [3, 9]"
    by (simp add: mergeChunkResults_def sort_by_key_def)
  from 1 2 show ?thesis by simp
qed

subsection \<open>Preprocessor\<close>

lemma match_here_Rep_Sym:
  "match_here (Rep lo None (Sym P)) k s =
     (if lo \<le> length (takeWhile P s) then Some (length (takeWhile P s), Map.empty) else None)"
proof (cases "lo \<le> length (takeWhile P s)")
  case True
  from run_Rep_Sym_Cons[OF True, of k Map.empty] obtain more where
    "run (Rep lo None (Sym P)) (k, s, Map.empty) =
       (k + length (takeWhile P s), drop (length (takeWhile P s)) s, Map.empty) # more" by blast
  with True show ?thesis by (simp add: match_here_def del: run.simps)
next
  case False
  then have "length (takeWhile P s) < lo" by simp
  from run_Rep_Sym_Nil[OF this, of k Map.empty] False show ?thesis
    by (simp add: match_here_def del: run.simps)
qed

lemma lead_nl_simps [simp]:
  "lead_nl [] = 0" "lead_nl (c # cs) = (if c = nl then Suc (lead_nl cs) else 0)"
  by (simp_all add: lead_nl_def)

lemma lead_nl_drop: "lead_nl (drop (lead_nl s) s) = 0"
  by (induction s) auto

lemma has_nl3_Cons: "has_nl3 (x # xs) = ((x = nl \<and> 2 \<le> lead_nl xs) \<or> has_nl3 xs)"
proof (cases xs)
  case Nil
  then show ?thesis by simp
next
  case (Cons y ys)
  then show ?thesis by (cases ys) auto
qed

lemma lead_nl_3_has_nl3: "3 \<le> lead_nl s \<Longrightarrow> has_nl3 s"
  by (cases s) (auto simp: has_nl3_Cons split: if_splits)

lemma match_here_cap:
  "match_here (Rep 3 None (cu nl)) k s =
     (if 3 \<le> lead_nl s then Some (lead_nl s, Map.empty) else None)"
  by (simp add: cu_def match_here_Rep_Sym lead_nl_def del: run.simps)

lemma replace_cap_step:
  "s \<noteq> [] \<Longrightarrow>
   replace_from (Rep 3 None (cu nl)) [Txt [nl, nl]] k s =
     (if 3 \<le> lead_nl s
      then nl # nl # replace_from (Rep 3 None (cu nl)) [Txt [nl, nl]] (k + lead_nl s) (drop (lead_nl s) s)
      else hd s # replace_from (Rep 3 None (cu nl)) [Txt [nl, nl]] (Suc k) (tl s))"
  by (cases s) (auto simp: match_here_cap simp del: lead_nl_simps)

lemma replace_cap_Nil: "replace_from (Rep 3 None (cu nl)) [Txt [nl, nl]] k [] = []"
  by (simp add: match_here_cap)

lemma replace_cap_props:
  "\<not> has_nl3 (replace_from (Rep 3 None (cu nl)) [Txt [nl, nl]] k s)
   \<and> lead_nl (replace_from (Rep 3 None (cu nl)) [Txt [nl, nl]] k s) \<le> lead_nl s
   \<and> lead_nl (replace_from (Rep 3 None (cu nl)) [Txt [nl, nl]] k s) \<le> 2"
proof (induction s arbitrary: k rule: length_induct)
  case (1 s)
  let ?R = "\<lambda>k s. replace_from (Rep 3 None (cu nl)) [Txt [nl, nl]] k s"
  show ?case
  proof (cases "s = []")
    case True
    then show ?thesis by (simp add: match_here_cap)
  next
    case False
    then obtain c cs where s: "s = c # cs" by (cases s) auto
    show ?thesis
    proof (cases "3 \<le> lead_nl s")
      case True
      let ?r = "drop (lead_nl s) s"
      have "lead_nl s \<le> length s" by (simp add: lead_nl_def length_takeWhile_le)
      with True False have "length ?r < length s" by simp
      with 1 have IH: "\<not> has_nl3 (?R (k + lead_nl s) ?r)"
        "lead_nl (?R (k + lead_nl s) ?r) \<le> lead_nl ?r" by blast+
      then have z: "lead_nl (?R (k + lead_nl s) ?r) = 0" by (simp add: lead_nl_drop)
      have eq: "?R k s = nl # nl # ?R (k + lead_nl s) ?r"
        using True by (simp add: replace_cap_step[OF False])
      show ?thesis unfolding eq using IH(1) z True by (simp add: has_nl3_Cons)
    next
      case F: False
      have "length cs < length s" using s by simp
      with 1 have IH: "\<not> has_nl3 (?R (Suc k) cs)" "lead_nl (?R (Suc k) cs) \<le> lead_nl cs"
        by blast+
      have eq: "?R k s = c # ?R (Suc k) cs"
        using F s by (simp add: match_here_cap)
      show ?thesis unfolding eq using IH F s by (auto simp: has_nl3_Cons split: if_splits)
    qed
  qed
qed

lemma replace_cap_id:
  "\<not> has_nl3 s \<Longrightarrow> replace_from (Rep 3 None (cu nl)) [Txt [nl, nl]] k s = s"
proof (induction s arbitrary: k)
  case Nil
  then show ?case by (simp add: match_here_cap)
next
  case (Cons c cs)
  from Cons.prems have "\<not> 3 \<le> lead_nl (c # cs)" using lead_nl_3_has_nl3 by blast
  moreover from Cons.prems have "\<not> has_nl3 cs" by (simp add: has_nl3_Cons)
  ultimately show ?case
    using Cons.IH[of "Suc k"] replace_cap_step[of "c # cs" k] by simp
qed

lemma replace_first_Bol_later: "replace_first_from (Seq Bol r) t (Suc k) s = s"
  by (induction s arbitrary: k) (simp_all add: match_here_def)

lemma match_here_Bol_plus:
  "match_here (Seq Bol (Rep (Suc 0) None (Sym P))) 0 s =
     (if Suc 0 \<le> length (takeWhile P s) then Some (length (takeWhile P s), Map.empty) else None)"
  using match_here_Rep_Sym[of "Suc 0" P 0 s] by (simp add: match_here_def del: run.simps(5))

lemma strip_leading_newlines_eq: "strip_leading_newlines s = drop (lead_nl s) s"
proof (cases s)
  case Nil
  then show ?thesis
    by (simp add: strip_leading_newlines_def replace_first_def plus_def cu_def match_here_Bol_plus
        del: run.simps)
next
  case (Cons c cs)
  then show ?thesis
    by (auto simp: strip_leading_newlines_def replace_first_def plus_def cu_def
        match_here_Bol_plus replace_first_Bol_later lead_nl_def simp del: run.simps)
qed

lemma cap_newlines_props:
  "\<not> has_nl3 (cap_newlines s) \<and> lead_nl (cap_newlines s) \<le> lead_nl s"
  using replace_cap_props[of 0 s] by (simp add: cap_newlines_def replace_all_def)

text \<open>
  The text \<^verbatim>\<open>x####### a\<close> (seven hashes) under each of the sixteen choices of the
  options: the heading clean-up splits the hashes into one hash and a heading of six,
  and a second application takes the lone hash, now followed by a blank line, for the
  start of a heading of its own and sets it off from the \<^verbatim>\<open>x\<close>. None of the four
  optional passes changes either text.
\<close>

lemma seven_hashes_twice:
  "\<forall>a b c d.
     preprocessContent ascii_toUpperCase (js ''x####### a'')
        \<lparr>autoLineBreak = a, detectChapters = b, removeExtraSpaces = c, fixPunctuation = d\<rparr>
       = js ''x#'' @ [nl, nl] @ js ''###### a'' @ [nl, nl]
     \<and> preprocessContent ascii_toUpperCase (js ''x#'' @ [nl, nl] @ js ''###### a'' @ [nl, nl])
        \<lparr>autoLineBreak = a, detectChapters = b, removeExtraSpaces = c, fixPunctuation = d\<rparr>
       = js ''x'' @ [nl, nl] @ js ''#'' @ [nl, nl] @ js ''###### a'' @ [nl, nl]"
  by code_simp

lemma seven_hashes_not_idempotent:
  "preprocessContent ascii_toUpperCase
      (preprocessContent ascii_toUpperCase (js ''x####### a'') options) options
   \<noteq> preprocessContent ascii_toUpperCase (js ''x####### a'') options"
proof -
  obtain a b c d where o: "options =
      \<lparr>autoLineBreak = a, detectChapters = b, removeExtraSpaces = c, fixPunctuation = d\<rparr>"
    by (cases options) auto
  have "js ''x'' @ [nl, nl] @ js ''#'' @ [nl, nl] @ js ''###### a'' @ [nl, nl]
      \<noteq> js ''x#'' @ [nl, nl] @ js ''###### a'' @ [nl, nl]"
    by (simp add: js_def nl_def)
  with seven_hashes_twice show ?thesis
    unfolding o by metis
qed




end
